theory Spec2Isabelle
  imports Main
begin

section \<open>The go-service supervisor: data model\<close>

text \<open>
  The embedding follows the latest iteration of \<^verbatim>\<open>package service\<close>: the second
  document of \<^verbatim>\<open>src/unnamed/part_003\<close> (from its line 333 on), whose \<^verbatim>\<open>Run\<close> has the
  local closures \<^verbatim>\<open>sendResponse\<close>, \<^verbatim>\<open>sendEvent\<close>, \<^verbatim>\<open>start\<close>, \<^verbatim>\<open>stop\<close>,
  \<^verbatim>\<open>shouldShutdown\<close> and \<^verbatim>\<open>shouldQuit\<close>. The two earlier iterations
  (\<^verbatim>\<open>src/service/service.go\<close> and \<^verbatim>\<open>src/unnamed/part_002\<close>) are not modelled.

  Service states are Go string constants that only the package itself assigns, so they
  are a datatype here; \<open>state_name\<close> gives the string of each constant. Command names
  are strings a caller writes into \<^verbatim>\<open>Command.Name\<close>, so they stay strings. A Go \<^verbatim>\<open>error\<close>
  is its message, \<open>None\<close> for \<^verbatim>\<open>nil\<close>. Channels and writers are identified by numbers,
  \<open>None\<close> for \<^verbatim>\<open>nil\<close>.
\<close>

datatype State = Starting | Running | Stopping | Stopped | Exited | Backoff

fun state_name :: "State \<Rightarrow> string" where
  "state_name Starting = ''starting''"
| "state_name Running = ''running''"
| "state_name Stopping = ''stopping''"
| "state_name Stopped = ''stopped''"
| "state_name Exited = ''exited''"
| "state_name Backoff = ''backoff''"

abbreviation Start :: string where "Start \<equiv> ''start''"
abbreviation Stop :: string where "Stop \<equiv> ''stop''"
abbreviation Restart :: string where "Restart \<equiv> ''restart''"
abbreviation Shutdown :: string where "Shutdown \<equiv> ''shutdown''"

text \<open>\<^verbatim>\<open>time.Duration\<close> counts nanoseconds; \<^verbatim>\<open>syscall.SIGINT\<close> is signal 2.\<close>

definition Second :: int where "Second = 1000000000"
definition SIGINT :: int where "SIGINT = 2"

definition DefaultStartTimeout :: int where "DefaultStartTimeout = 1 * Second"
definition DefaultStartRetries :: int where "DefaultStartRetries = 3"
definition DefaultStopSignal :: int where "DefaultStopSignal = SIGINT"
definition DefaultStopTimeout :: int where "DefaultStopTimeout = 5 * Second"
definition DefaultStopRestart :: bool where "DefaultStopRestart = True"

record Command =
  Name :: string
  Response :: "nat option"

record Response_msg =
  RName :: string
  RError :: "string option"

record Event =
  EState :: State
  EError :: "string option"

record ProcessState =
  PState :: State
  PError :: "string option"

text \<open>
  \<^verbatim>\<open>exec.Cmd\<close>, with the fields \<^verbatim>\<open>makeCommand\<close> fills: the argument vector it hands to
  \<^verbatim>\<open>exec.Command\<close>, and \<^verbatim>\<open>Stdout\<close>, \<^verbatim>\<open>Stderr\<close>, \<^verbatim>\<open>Env\<close> and \<^verbatim>\<open>Dir\<close> (\<^verbatim>\<open>Stdin\<close> is set to
  \<^verbatim>\<open>nil\<close> and left out). The \<^verbatim>\<open>Path\<close> that \<^verbatim>\<open>exec.Command\<close> derives from the program name,
  by a lookup in the host's \<^verbatim>\<open>PATH\<close> for a name without a slash, is the library's and
  is left out too. \<open>Process\<close> is \<^verbatim>\<open>nil\<close> until \<^verbatim>\<open>Start()\<close> has succeeded; afterwards it
  holds the child's PID.
\<close>

record Cmd =
  Args :: "string list"
  CStdout :: "nat option"
  CStderr :: "nat option"
  Env :: "string list option"
  Dir :: string
  Process :: "int option"

record Service =
  Directory :: string
  Environment :: "string list option"
  StartTimeout :: int
  StartRetries :: int
  StopSignal :: int
  StopTimeout :: int
  StopRestart :: bool
  Stdout :: "nat option"
  Stderr :: "nat option"
  args :: "string list"
  command :: "Cmd option"
  state :: State

datatype panic = NilDereference | IndexOutOfRange | SendOnClosedChannel

subsection \<open>NewService, State, Pid, makeCommand\<close>

text \<open>
  \<^verbatim>\<open>os.Getwd()\<close> is the host's answer \<open>(cwd, err)\<close>, a parameter. The \<^verbatim>\<open>if\<close> statement
  declares its own \<^verbatim>\<open>cwd, err :=\<close>, so the named results \<^verbatim>\<open>svc\<close> and \<^verbatim>\<open>err\<close> of the function
  start as \<^verbatim>\<open>nil\<close> and only \<^verbatim>\<open>svc\<close> is ever assigned; the bare \<^verbatim>\<open>return\<close> returns them.
\<close>

definition NewService :: "string list \<Rightarrow> string \<times> string option \<Rightarrow> Service option \<times> string option" where
  "NewService as getwd =
     (let svc0 = None; err0 = None; (cwd, err1) = getwd in
      if err1 = None then
        (Some \<lparr>Directory = cwd, Environment = None,
               StartTimeout = DefaultStartTimeout, StartRetries = DefaultStartRetries,
               StopSignal = DefaultStopSignal, StopTimeout = DefaultStopTimeout,
               StopRestart = DefaultStopRestart, Stdout = None, Stderr = None,
               args = as, command = None, state = Stopped\<rparr>, err0)
      else (svc0, err0))"

definition State_of :: "Service \<Rightarrow> string" where
  "State_of sv = state_name (state sv)"

definition Pid :: "Service \<Rightarrow> panic + int" where
  "Pid sv =
     (if state sv \<noteq> Running \<and> state sv \<noteq> Stopping then Inr 0
      else case command sv of
             None \<Rightarrow> Inl NilDereference
           | Some c \<Rightarrow> (case Process c of None \<Rightarrow> Inl NilDereference | Some p \<Rightarrow> Inr p))"

definition makeCommand :: "Service \<Rightarrow> panic + Cmd" where
  "makeCommand sv =
     (case args sv of
        [] \<Rightarrow> Inl IndexOutOfRange
      | a # rest \<Rightarrow>
          Inr \<lparr>Args = a # rest, CStdout = Stdout sv, CStderr = Stderr sv,
               Env = Environment sv, Dir = Directory sv, Process = None\<rparr>)"

section \<open>The lifecycle helper of one start attempt\<close>

text \<open>
  \<^verbatim>\<open>start\<close> spawns one goroutine per attempt (here thread \<open>MainT\<close>); after a successful
  launch that goroutine spawns the start-window timer (thread \<open>TimerT\<close>). The two
  communicate over \<^verbatim>\<open>waitOver\<close> and \<^verbatim>\<open>checkOver\<close>, channels of capacity 1 (a value or
  empty), which the deferred function closes when the first goroutine returns. A
  scheduler decides which goroutine takes the next step: the step out of \<open>MWait\<close> is
  the child's exit, the step out of \<open>TSleep\<close> is the end of the start window. A
  goroutine that is blocked does not move. \<open>posted\<close> lists what went out on
  \<^verbatim>\<open>states\<close>, in order.

  The host's answers are a parameter: \<open>launchRes\<close> is what \<^verbatim>\<open>s.command.Start()\<close> returns
  (an error, or the PID of the new child), \<open>waitRes\<close> what \<^verbatim>\<open>s.command.Wait()\<close> returns.
\<close>

datatype thread = MainT | TimerT

datatype main_pc = MStart | MWait | MSendWaitOver | MRecvCheckOver | MDone | MPanicked

datatype timer_pc = TNone | TSleep | TSelect | TSendCheckFalse | TSendRunning | TSendCheckTrue | TDone | TPanicked

record Child =
  launchRes :: "string + int"
  waitRes :: "string option"

record Helper =
  hmain :: main_pc
  htimer :: timer_pc
  waitOver :: "bool option"
  checkOver :: "bool option"
  chans_closed :: bool
  exitErr :: "string option"
  posted :: "ProcessState list"

definition helper_init :: Helper where
  "helper_init = \<lparr>hmain = MStart, htimer = TNone, waitOver = None, checkOver = None,
                    chans_closed = False, exitErr = None, posted = []\<rparr>"

definition post :: "State \<Rightarrow> string option \<Rightarrow> Helper \<Rightarrow> Helper" where
  "post st err h = h\<lparr>posted := posted h @ [\<lparr>PState = st, PError = err\<rparr>]\<rparr>"

definition exit_msg :: "bool \<Rightarrow> string option \<Rightarrow> string" where
  "exit_msg check e =
     (if check then
        (case e of None \<Rightarrow> ''process exited normally with success''
                 | Some x \<Rightarrow> ''process exited normally with failure: '' @ x)
      else
        (case e of None \<Rightarrow> ''process exited prematurely with success''
                 | Some x \<Rightarrow> ''process exited prematurely with failure: '' @ x))"

text \<open>
  The first goroutine: \<^verbatim>\<open>s.command = s.makeCommand()\<close> and \<^verbatim>\<open>s.command.Start()\<close> (one step,
  whose write to the service is \<open>launch_write\<close> below), \<^verbatim>\<open>Wait()\<close>, \<^verbatim>\<open>waitOver <- true\<close>,
  \<^verbatim>\<open>check := <-checkOver\<close> with the final post, and the deferred closes.
\<close>

definition main_step :: "Service \<Rightarrow> Child \<Rightarrow> Helper \<Rightarrow> Helper" where
  "main_step sv ch h =
     (case hmain h of
        MStart \<Rightarrow>
          (case makeCommand sv of
             Inl p \<Rightarrow> h\<lparr>hmain := MPanicked\<rparr>
           | Inr c \<Rightarrow>
               (case launchRes ch of
                  Inl err \<Rightarrow> (post Exited (Some err) h)\<lparr>hmain := MDone\<rparr>
                | Inr pid \<Rightarrow> h\<lparr>hmain := MWait, htimer := TSleep\<rparr>))
      | MWait \<Rightarrow> h\<lparr>exitErr := waitRes ch, hmain := MSendWaitOver\<rparr>
      | MSendWaitOver \<Rightarrow>
          (if waitOver h = None then h\<lparr>waitOver := Some True, hmain := MRecvCheckOver\<rparr> else h)
      | MRecvCheckOver \<Rightarrow>
          (case checkOver h of
             None \<Rightarrow> h
           | Some check \<Rightarrow>
               (post (if check then Exited else Backoff) (Some (exit_msg check (exitErr h)))
                  (h\<lparr>checkOver := None\<rparr>))\<lparr>hmain := MDone, chans_closed := True\<rparr>)
      | MDone \<Rightarrow> h
      | MPanicked \<Rightarrow> h)"

text \<open>
  The timer goroutine: \<^verbatim>\<open>time.Sleep(s.StartTimeout)\<close>, then the \<^verbatim>\<open>select\<close> with its
  \<^verbatim>\<open>default\<close>. A receive from a closed channel succeeds at once; a send on a closed
  channel panics.
\<close>

definition timer_step :: "Helper \<Rightarrow> Helper" where
  "timer_step h =
     (case htimer h of
        TNone \<Rightarrow> h
      | TSleep \<Rightarrow> h\<lparr>htimer := TSelect\<rparr>
      | TSelect \<Rightarrow>
          (if chans_closed h \<or> waitOver h \<noteq> None
           then h\<lparr>waitOver := None, htimer := TSendCheckFalse\<rparr>
           else h\<lparr>htimer := TSendRunning\<rparr>)
      | TSendCheckFalse \<Rightarrow>
          (if chans_closed h then h\<lparr>htimer := TPanicked\<rparr>
           else if checkOver h = None then h\<lparr>checkOver := Some False, htimer := TDone\<rparr>
           else h)
      | TSendRunning \<Rightarrow> (post Running None h)\<lparr>htimer := TSendCheckTrue\<rparr>
      | TSendCheckTrue \<Rightarrow>
          (if chans_closed h then h\<lparr>htimer := TPanicked\<rparr>
           else if checkOver h = None then h\<lparr>checkOver := Some True, htimer := TDone\<rparr>
           else h)
      | TDone \<Rightarrow> h
      | TPanicked \<Rightarrow> h)"

definition helper_step :: "Service \<Rightarrow> Child \<Rightarrow> thread \<Rightarrow> Helper \<Rightarrow> Helper" where
  "helper_step sv ch t h = (case t of MainT \<Rightarrow> main_step sv ch h | TimerT \<Rightarrow> timer_step h)"


definition helper_finished :: "Helper \<Rightarrow> bool" where
  "helper_finished h = (hmain h = MDone \<and> (htimer h = TNone \<or> htimer h = TDone))"

definition helper_panicked :: "Helper \<Rightarrow> bool" where
  "helper_panicked h = (hmain h = MPanicked \<or> htimer h = TPanicked)"

text \<open>The write of the first step to the shared service: \<^verbatim>\<open>s.command\<close> and its \<^verbatim>\<open>Process\<close>.\<close>

definition launch_write :: "Child \<Rightarrow> Service \<Rightarrow> Service" where
  "launch_write ch sv =
     (case makeCommand sv of
        Inl p \<Rightarrow> sv
      | Inr c \<Rightarrow>
          sv\<lparr>command := Some (c\<lparr>Process := (case launchRes ch of Inl err \<Rightarrow> None | Inr pid \<Rightarrow> Some pid)\<rparr>)\<rparr>)"




subsection \<open>The states a helper can be in\<close>

text \<open>
  Where the timer can stand relative to the first goroutine: it has not yet chosen
  (\<open>timer_early\<close>), it found \<^verbatim>\<open>waitOver\<close> empty and took the \<^verbatim>\<open>default\<close> branch
  (\<open>timer_default\<close>), or it received from \<^verbatim>\<open>waitOver\<close> (\<open>timer_late\<close>: the child's exit
  had been reported before the check). \<open>helper_wf\<close> lists, for each position of the first
  goroutine, the channel contents and the states posted so far that go with it.
\<close>

definition states_posted :: "Helper \<Rightarrow> State list" where
  "states_posted h = map PState (posted h)"

definition timer_early :: "Helper \<Rightarrow> bool" where
  "timer_early h =
     ((htimer h = TSleep \<or> htimer h = TSelect) \<and> checkOver h = None \<and> states_posted h = [])"

definition timer_default :: "Helper \<Rightarrow> bool" where
  "timer_default h =
     ((htimer h = TSendRunning \<and> checkOver h = None \<and> states_posted h = []) \<or>
      (htimer h = TSendCheckTrue \<and> checkOver h = None \<and> states_posted h = [Running]) \<or>
      (htimer h = TDone \<and> checkOver h = Some True \<and> states_posted h = [Running]))"

definition timer_late :: "Helper \<Rightarrow> bool" where
  "timer_late h =
     ((htimer h = TSendCheckFalse \<and> checkOver h = None \<and> states_posted h = []) \<or>
      (htimer h = TDone \<and> checkOver h = Some False \<and> states_posted h = []))"

definition helper_wf :: "Helper \<Rightarrow> bool" where
  "helper_wf h =
     (case hmain h of
        MStart \<Rightarrow> htimer h = TNone \<and> waitOver h = None \<and> checkOver h = None
                   \<and> \<not> chans_closed h \<and> states_posted h = []
      | MPanicked \<Rightarrow> htimer h = TNone \<and> states_posted h = []
      | MWait \<Rightarrow> \<not> chans_closed h \<and> waitOver h = None \<and> (timer_early h \<or> timer_default h)
      | MSendWaitOver \<Rightarrow> \<not> chans_closed h \<and> waitOver h = None \<and> (timer_early h \<or> timer_default h)
      | MRecvCheckOver \<Rightarrow>
          \<not> chans_closed h \<and>
          ((waitOver h = Some True \<and> (timer_early h \<or> timer_default h)) \<or>
           (waitOver h = None \<and> timer_late h))
      | MDone \<Rightarrow>
          (htimer h = TNone \<and> \<not> chans_closed h \<and> waitOver h = None \<and> checkOver h = None
             \<and> states_posted h = [Exited]) \<or>
          (htimer h = TDone \<and> chans_closed h \<and> checkOver h = None
             \<and> (states_posted h = [Running, Exited] \<or> states_posted h = [Backoff])))"











section \<open>The control loop of Run\<close>

text \<open>
  \<open>Run_state\<close> holds what one call of \<^verbatim>\<open>Run\<close> owns: the service \<^verbatim>\<open>s\<close>, the locals
  \<^verbatim>\<open>command\<close> (here \<open>command_loc\<close>: the field of the service has the name already) and
  \<^verbatim>\<open>retries\<close>, what the loop has sent so far (events, responses, signals to the child),
  and the goroutines it has spawned: the lifecycle helpers and the stop timers, each
  timer with the PID it will send on \<^verbatim>\<open>kill\<close>.
\<close>

datatype Output =
    EventOut Event
  | ResponseOut nat Response_msg
  | SignalOut int int
  | KillOut int

record Run_state =
  svc :: Service
  command_loc :: "Command option"
  retries :: int
  outputs :: "Output list"
  helpers :: "Helper list"
  timers :: "int list"

definition respond :: "Command \<Rightarrow> string option \<Rightarrow> Run_state \<Rightarrow> Run_state" where
  "respond cmd err r =
     (case Response cmd of
        None \<Rightarrow> r
      | Some ch \<Rightarrow> r\<lparr>outputs := outputs r @ [ResponseOut ch \<lparr>RName = Name cmd, RError = err\<rparr>]\<rparr>)"

definition sendResponse :: "string option \<Rightarrow> Run_state \<Rightarrow> Run_state" where
  "sendResponse err r =
     (case command_loc r of
        None \<Rightarrow> r
      | Some c \<Rightarrow> (if Response c \<noteq> None then respond c err r else r)\<lparr>command_loc := None\<rparr>)"

definition sendEvent :: "State \<Rightarrow> string option \<Rightarrow> Run_state \<Rightarrow> Run_state" where
  "sendEvent st err r =
     (let r1 = r\<lparr>svc := (svc r)\<lparr>state := st\<rparr>,
                 outputs := outputs r @ [EventOut \<lparr>EState = st, EError = err\<rparr>]\<rparr>
      in case command_loc r1 of
           None \<Rightarrow> r1
         | Some c \<Rightarrow>
             if Name c = Restart \<or> Name c = Start then
               (if st = Running then sendResponse None r1
                else if st = Exited then sendResponse err r1
                else r1)
             else if Name c = Stop then
               (if st = Stopped then sendResponse None r1
                else if st = Exited then sendResponse err r1
                else r1)
             else r1)"

definition invalidStateError :: "State \<Rightarrow> Run_state \<Rightarrow> string" where
  "invalidStateError st r =
     ''invalid state transition: '' @ state_name (state (svc r)) @ '' -> '' @ state_name st"

definition start :: "Run_state \<Rightarrow> Run_state" where
  "start r =
     (if state (svc r) \<noteq> Stopped \<and> state (svc r) \<noteq> Exited \<and> state (svc r) \<noteq> Backoff
      then sendResponse (Some (invalidStateError Starting r)) r
      else (let r1 = sendEvent Starting None r in r1\<lparr>helpers := helpers r1 @ [helper_init]\<rparr>))"

definition stop :: "Run_state \<Rightarrow> panic + Run_state" where
  "stop r =
     (if state (svc r) \<noteq> Running
      then Inr (sendResponse (Some (invalidStateError Stopping r)) r)
      else (let r1 = sendEvent Stopping None r in
            case Pid (svc r1) of
              Inl p \<Rightarrow> Inl p
            | Inr pid \<Rightarrow>
                Inr (r1\<lparr>outputs := outputs r1 @ [SignalOut pid (StopSignal (svc r1))],
                        timers := timers r1 @ [pid]\<rparr>)))"

definition shouldShutdown :: "Run_state \<Rightarrow> bool" where
  "shouldShutdown r = (case command_loc r of None \<Rightarrow> False | Some c \<Rightarrow> Name c = Shutdown)"

definition shouldQuit :: "Run_state \<Rightarrow> bool" where
  "shouldQuit r = (shouldShutdown r \<and> (state (svc r) = Stopped \<or> state (svc r) = Exited))"

text \<open>The three cases of the \<^verbatim>\<open>select\<close>.\<close>

definition on_state :: "ProcessState \<Rightarrow> Run_state \<Rightarrow> panic + Run_state" where
  "on_state ps r =
     (case PState ps of
        Running \<Rightarrow>
          (if shouldShutdown r then stop r else Inr (sendEvent Running None r))
      | Exited \<Rightarrow>
          (if state (svc r) = Stopping then Inr (sendEvent Stopped None r)
           else (let r1 = sendEvent Exited (PError ps) r in
                 if StopRestart (svc r1) then Inr (start r1) else Inr r1))
      | Backoff \<Rightarrow>
          (if state (svc r) = Stopping then Inr (sendEvent Stopped None r)
           else if retries r < StartRetries (svc r) then
             (let r1 = start (sendEvent Backoff (PError ps) r) in
              Inr (r1\<lparr>retries := retries r1 + 1\<rparr>))
           else
             (let r1 = sendEvent Exited (PError ps) r in
              Inr (r1\<lparr>retries := 0\<rparr>)))
      | _ \<Rightarrow> Inr r)"

definition dispatch :: "Run_state \<Rightarrow> panic + Run_state" where
  "dispatch r =
     (case command_loc r of
        None \<Rightarrow> Inr r
      | Some c \<Rightarrow>
          if Name c = Start then Inr (start r)
          else if Name c = Stop then stop r
          else if Name c = Restart then
            (case state (svc r) of
               Running \<Rightarrow> stop r
             | Stopped \<Rightarrow> Inr (start r)
             | Exited \<Rightarrow> Inr (start r)
             | _ \<Rightarrow> Inr (sendResponse (Some (invalidStateError Stopping r)) r))
          else if Name c = Shutdown then
            (case state (svc r) of
               Running \<Rightarrow> stop r
             | Backoff \<Rightarrow> Inr (r\<lparr>svc := (svc r)\<lparr>state := Exited\<rparr>\<rparr>)
             | _ \<Rightarrow> Inr r)
          else Inr r)"

text \<open>
  The \<^verbatim>\<open>newCommand\<close> case: the guard on a command in flight (with its \<^verbatim>\<open>continue\<close>), then
  \<^verbatim>\<open>command = &newCommand\<close> and the \<^verbatim>\<open>switch\<close> on its name, which is \<open>dispatch\<close>.
\<close>

definition on_command :: "Command \<Rightarrow> Run_state \<Rightarrow> panic + Run_state" where
  "on_command newCommand r =
     (case command_loc r of
        Some c \<Rightarrow>
          if Name newCommand = Shutdown then
            dispatch ((respond c (Some ''service is shuttind down'') r)\<lparr>command_loc := Some newCommand\<rparr>)
          else Inr (respond newCommand (Some ''command %s is currently executing'') r)
      | None \<Rightarrow> dispatch (r\<lparr>command_loc := Some newCommand\<rparr>))"

definition on_kill :: "int \<Rightarrow> Run_state \<Rightarrow> panic + Run_state" where
  "on_kill pid r =
     (case Pid (svc r) of
        Inl p \<Rightarrow> Inl p
      | Inr cur \<Rightarrow>
          if pid = cur then
            (case command (svc r) of
               None \<Rightarrow> Inl NilDereference
             | Some c \<Rightarrow>
                 (case Process c of
                    None \<Rightarrow> Inl NilDereference
                  | Some p \<Rightarrow> Inr (r\<lparr>outputs := outputs r @ [KillOut p]\<rparr>)))
          else Inr r)"

text \<open>
  What the loop's surroundings can do between two iterations: deliver on one of the
  three channels, or (the helper goroutine, which shares \<^verbatim>\<open>s\<close>) write \<^verbatim>\<open>s.command\<close>.
\<close>

datatype Input =
    StateIn ProcessState
  | CommandIn Command
  | KillIn int
  | LaunchIn Child

definition step :: "Input \<Rightarrow> Run_state \<Rightarrow> panic + Run_state" where
  "step i r =
     (case i of
        StateIn ps \<Rightarrow> on_state ps r
      | CommandIn c \<Rightarrow> on_command c r
      | KillIn pid \<Rightarrow> on_kill pid r
      | LaunchIn ch \<Rightarrow> Inr (r\<lparr>svc := launch_write ch (svc r)\<rparr>))"

definition Run_init :: "Service \<Rightarrow> Run_state" where
  "Run_init sv = \<lparr>svc = sv, command_loc = None, retries = 0, outputs = [], helpers = [], timers = []\<rparr>"

definition Run_exit :: "Run_state \<Rightarrow> Run_state" where
  "Run_exit r = (case command_loc r of None \<Rightarrow> r | Some c \<Rightarrow> respond c None r)"

text \<open>
  \<^verbatim>\<open>for !shouldQuit() { select ... }\<close> over the inputs that arrive, then the final
  response. The flag of the result says whether \<^verbatim>\<open>Run\<close> has returned: with the
  inputs used up and \<open>shouldQuit\<close> false the loop is still waiting in its \<^verbatim>\<open>select\<close>.
\<close>

fun Run_loop :: "Input list \<Rightarrow> Run_state \<Rightarrow> panic + (Run_state \<times> bool)" where
  "Run_loop [] r = (if shouldQuit r then Inr (Run_exit r, True) else Inr (r, False))"
| "Run_loop (i # ins) r =
     (if shouldQuit r then Inr (Run_exit r, True)
      else case step i r of Inl p \<Rightarrow> Inl p | Inr r' \<Rightarrow> Run_loop ins r')"

definition Run :: "Service \<Rightarrow> Input list \<Rightarrow> panic + (Run_state \<times> bool)" where
  "Run sv ins = Run_loop ins (Run_init sv)"

section \<open>The loop together with its goroutines\<close>

text \<open>
  In the whole system the loop's inputs are not arbitrary: a state notification is a
  post of a helper the loop has spawned, and a kill notification is the PID of a stop
  timer the loop has armed. One action is a command from the caller, the firing of the
  \<open>i\<close>-th pending timer (its send on \<^verbatim>\<open>kill\<close> and the loop's receive), or one step of a
  goroutine of the \<open>i\<close>-th helper. \<^verbatim>\<open>states\<close> is unbuffered, so a helper's post and the
  loop's handling of it are one action. A panic of any goroutine ends the program.
\<close>

datatype Action = Deliver Command | TimerFire nat | HelperAct nat Child thread

fun deliver :: "ProcessState list \<Rightarrow> Run_state \<Rightarrow> panic + Run_state" where
  "deliver [] r = Inr r"
| "deliver (ps # pss) r = (case on_state ps r of Inl p \<Rightarrow> Inl p | Inr r' \<Rightarrow> deliver pss r')"

definition helper_panic :: "Helper \<Rightarrow> panic option" where
  "helper_panic h =
     (if hmain h = MPanicked then Some IndexOutOfRange
      else if htimer h = TPanicked then Some SendOnClosedChannel
      else None)"

definition sys_step :: "Action \<Rightarrow> Run_state \<Rightarrow> panic + Run_state" where
  "sys_step a r =
     (case a of
        Deliver c \<Rightarrow> on_command c r
      | TimerFire i \<Rightarrow>
          (if i < length (timers r)
           then on_kill (timers r ! i) (r\<lparr>timers := take i (timers r) @ drop (Suc i) (timers r)\<rparr>)
           else Inr r)
      | HelperAct i ch t \<Rightarrow>
          (if i < length (helpers r) then
             (let h = helpers r ! i;
                  h' = helper_step (svc r) ch t h;
                  sv' = (if t = MainT \<and> hmain h = MStart then launch_write ch (svc r) else svc r);
                  r1 = r\<lparr>svc := sv', helpers := (helpers r)[i := h']\<rparr>
              in case helper_panic h' of
                   Some p \<Rightarrow> Inl p
                 | None \<Rightarrow> deliver (drop (length (posted h)) (posted h')) r1)
           else Inr r))"

text \<open>The actions taken while the loop runs; once \<open>shouldQuit\<close> holds the loop is left.\<close>

fun sys_run :: "Action list \<Rightarrow> Run_state \<Rightarrow> panic + Run_state" where
  "sys_run [] r = Inr r"
| "sys_run (a # acts) r =
     (if shouldQuit r then Inr r
      else case sys_step a r of Inl p \<Rightarrow> Inl p | Inr r' \<Rightarrow> sys_run acts r')"

section \<open>A concrete service and what a run shows\<close>

text \<open>
  The service of the example program, \<^verbatim>\<open>NewService([]string{"sleep", "10"})\<close>, created
  in the directory \<^verbatim>\<open>/\<close>; and the part of a run's result a caller can see or that the
  loop keeps: the state, the command in flight, the retry counter, everything sent, and
  whether \<^verbatim>\<open>Run\<close> has returned.
\<close>

definition example_service :: Service where
  "example_service =
     \<lparr>Directory = ''/'', Environment = None, StartTimeout = 1000000000, StartRetries = 3,
      StopSignal = 2, StopTimeout = 5000000000, StopRestart = True, Stdout = None,
      Stderr = None, args = [''sleep'', ''10''], command = None, state = Stopped\<rparr>"

definition observed ::
  "panic + (Run_state \<times> bool) \<Rightarrow> (State \<times> Command option \<times> int \<times> Output list \<times> bool) option" where
  "observed res =
     (case res of
        Inl p \<Rightarrow> None
      | Inr (r, returned) \<Rightarrow> Some (state (svc r), command_loc r, retries r, outputs r, returned))"

section \<open>Notions used to state the properties\<close>

text \<open>The PIDs of the forced kills among what the loop has sent.\<close>

fun kills :: "Output list \<Rightarrow> int list" where
  "kills [] = []"
| "kills (KillOut p # os) = p # kills os"
| "kills (x # os) = kills os"

text \<open>
  \<open>armed ts r\<close>: compared with the pending timers \<open>ts\<close>, the state \<open>r\<close> has one more, for
  the PID that \<^verbatim>\<open>s.Pid()\<close> returns in \<open>r\<close>; the service is Stopping and the last thing sent
  is the stop signal to that PID. \<open>fired i ts\<close>: the pending timers without the \<open>i\<close>-th.
\<close>

definition armed :: "int list \<Rightarrow> Run_state \<Rightarrow> bool" where
  "armed ts r =
     (timers r = ts @ [last (timers r)] \<and> Pid (svc r) = Inr (last (timers r)) \<and>
      state (svc r) = Stopping \<and> outputs r \<noteq> [] \<and>
      last (outputs r) = SignalOut (last (timers r)) (StopSignal (svc r)))"

definition fired :: "nat \<Rightarrow> int list \<Rightarrow> int list" where
  "fired i ts = take i ts @ drop (Suc i) ts"

text \<open>
  The specification's transition table, for the six states the package has: the
  commands it calls invalid in each state, and the state a command tries to enter
  (the \<open>to\<close> of the error message).
\<close>

definition spec_invalid :: "string \<Rightarrow> State \<Rightarrow> bool" where
  "spec_invalid name st =
     (if name = Start then st = Starting \<or> st = Running \<or> st = Stopping
      else if name = Stop then st \<noteq> Running
      else if name = Restart then st = Starting \<or> st = Stopping \<or> st = Backoff
      else False)"

definition attempted :: "string \<Rightarrow> State" where
  "attempted name = (if name = Start then Starting else Stopping)"

definition invalid_transition :: "State \<Rightarrow> State \<Rightarrow> string" where
  "invalid_transition from to =
     ''invalid state transition: '' @ state_name from @ '' -> '' @ state_name to"

text \<open>The example service after \<^verbatim>\<open>start\<close> has been accepted: Starting, \<^verbatim>\<open>start\<close> in flight.\<close>

definition example_starting :: Run_state where
  "example_starting =
     \<lparr>svc = example_service\<lparr>state := Starting\<rparr>,
      command_loc = Some \<lparr>Name = Start, Response = Some 1\<rparr>,
      retries = 0,
      outputs = [EventOut \<lparr>EState = Starting, EError = None\<rparr>],
      helpers = [helper_init],
      timers = []\<rparr>"

text \<open>
  Taking reply sinks away: \<open>erase_command P\<close> makes \<^verbatim>\<open>nil\<close> every sink that \<open>P\<close> selects,
  and \<open>erase_state P\<close> does so for the command in flight and drops, from what the loop
  has sent, the responses sent on those sinks.
\<close>

definition erase_command :: "(nat \<Rightarrow> bool) \<Rightarrow> Command \<Rightarrow> Command" where
  "erase_command P c =
     (case Response c of None \<Rightarrow> c | Some ch \<Rightarrow> if P ch then c\<lparr>Response := None\<rparr> else c)"

definition erase_input :: "(nat \<Rightarrow> bool) \<Rightarrow> Input \<Rightarrow> Input" where
  "erase_input P i = (case i of CommandIn c \<Rightarrow> CommandIn (erase_command P c) | _ \<Rightarrow> i)"

definition kept :: "(nat \<Rightarrow> bool) \<Rightarrow> Output \<Rightarrow> bool" where
  "kept P x = (case x of ResponseOut ch m \<Rightarrow> \<not> P ch | _ \<Rightarrow> True)"

definition erase_state :: "(nat \<Rightarrow> bool) \<Rightarrow> Run_state \<Rightarrow> Run_state" where
  "erase_state P r =
     r\<lparr>command_loc := map_option (erase_command P) (command_loc r),
       outputs := filter (kept P) (outputs r)\<rparr>"

definition erase_step :: "(nat \<Rightarrow> bool) \<Rightarrow> panic + Run_state \<Rightarrow> panic + Run_state" where
  "erase_step P res = (case res of Inl p \<Rightarrow> Inl p | Inr r \<Rightarrow> Inr (erase_state P r))"

definition erase_result ::
  "(nat \<Rightarrow> bool) \<Rightarrow> panic + (Run_state \<times> bool) \<Rightarrow> panic + (Run_state \<times> bool)" where
  "erase_result P res =
     (case res of Inl p \<Rightarrow> Inl p | Inr (r, returned) \<Rightarrow> Inr (erase_state P r, returned))"

text \<open>
  The invariant of the whole system. The child handle is usable when \<^verbatim>\<open>s.command\<close> and
  its \<^verbatim>\<open>Process\<close> are set. All helpers but the newest have finished; the newest is
  about to launch (the service is Starting), has launched (the handle is usable and
  the service is Starting, Running or Stopping), or has finished (the service is
  Stopped or Exited). \<open>idle\<close>: every helper has finished.
\<close>

definition handle_ok :: "Service \<Rightarrow> bool" where
  "handle_ok sv = (case command sv of None \<Rightarrow> False | Some c \<Rightarrow> Process c \<noteq> None)"

definition launched :: "main_pc \<Rightarrow> bool" where
  "launched pc = (pc = MWait \<or> pc = MSendWaitOver \<or> pc = MRecvCheckOver)"

definition startable :: "Run_state \<Rightarrow> bool" where
  "startable r = (state (svc r) = Stopped \<or> state (svc r) = Exited \<or> state (svc r) = Backoff)"

definition idle :: "Run_state \<Rightarrow> bool" where
  "idle r = list_all (\<lambda>h. helper_wf h \<and> hmain h = MDone) (helpers r)"

definition sys_inv :: "Run_state \<Rightarrow> bool" where
  "sys_inv r =
     (if helpers r = [] then state (svc r) = Stopped \<or> state (svc r) = Exited
      else
          list_all (\<lambda>h. helper_wf h \<and> hmain h = MDone) (butlast (helpers r)) \<and>
          helper_wf (last (helpers r)) \<and>
          (case hmain (last (helpers r)) of
             MStart \<Rightarrow> state (svc r) = Starting
           | MDone \<Rightarrow> state (svc r) = Stopped \<or> state (svc r) = Exited
           | MPanicked \<Rightarrow> False
           | _ \<Rightarrow> handle_ok (svc r) \<and>
                 (state (svc r) = Starting \<or> state (svc r) = Running \<or> state (svc r) = Stopping)))"

text \<open>
  What a system run shows of the service: its state and whether \<^verbatim>\<open>s.command\<close> is set.
  \<open>example_child\<close> is a child that is launched with PID 42 and exits with success.
\<close>

definition sys_view :: "panic + Run_state \<Rightarrow> (State \<times> bool) option" where
  "sys_view res =
     (case res of Inl p \<Rightarrow> None | Inr r \<Rightarrow> Some (state (svc r), command (svc r) \<noteq> None))"

definition example_child :: Child where
  "example_child = \<lparr>launchRes = Inr 42, waitRes = None\<rparr>"

text \<open>
  The retry counter is in range when it lies between 0 and the configured maximum.
\<close>

definition retries_ok :: "Run_state \<Rightarrow> bool" where
  "retries_ok r = (0 \<le> retries r \<and> retries r \<le> max 0 (StartRetries (svc r)))"

text \<open>
  A host never gives a child the PID 0 (\<open>host_ok\<close>, a condition on the actions of a
  run). \<open>pids_ok\<close>: no pending timer and no child handle carries the PID 0.
  \<open>safe\<close> collects what keeps the system from panicking: the invariant, the PIDs,
  and a command vector with a program to run.
\<close>

definition pids_ok :: "Run_state \<Rightarrow> bool" where
  "pids_ok r =
     (list_all (\<lambda>p. p \<noteq> 0) (timers r) \<and>
      (case command (svc r) of None \<Rightarrow> True | Some c \<Rightarrow> Process c \<noteq> Some 0))"

definition host_ok :: "Action \<Rightarrow> bool" where
  "host_ok a = (case a of HelperAct i ch t \<Rightarrow> launchRes ch \<noteq> Inr 0 | _ \<Rightarrow> True)"

definition static_ok :: "Run_state \<Rightarrow> bool" where
  "static_ok r = (pids_ok r \<and> args (svc r) \<noteq> [])"

definition safe :: "Run_state \<Rightarrow> bool" where
  "safe r = (sys_inv r \<and> pids_ok r \<and> args (svc r) \<noteq> [])"

text \<open>
  Two more example states: the example service Running with child 42 while a timer
  for an earlier child (PID 41) is still pending, and the state \<^verbatim>\<open>stop\<close> leads to.
\<close>

definition example_running :: Run_state where
  "example_running =
     \<lparr>svc = example_service
        \<lparr>command := Some \<lparr>Args = [''sleep'', ''10''], CStdout = None,
                           CStderr = None, Env = None, Dir = ''/'', Process = Some 42\<rparr>,
         state := Running\<rparr>,
      command_loc = None, retries = 0, outputs = [], helpers = [], timers = [41]\<rparr>"

definition example_stopping :: Run_state where
  "example_stopping =
     example_running
       \<lparr>svc := (svc example_running)\<lparr>state := Stopping\<rparr>,
        outputs := [EventOut \<lparr>EState = Stopping, EError = None\<rparr>, SignalOut 42 2],
        timers := [41, 42]\<rparr>"

section \<open>Theorems\<close>

lemmas loop_defs = Run_def Run_init_def Run_exit_def step_def on_state_def on_command_def
  on_kill_def dispatch_def start_def stop_def sendEvent_def sendResponse_def respond_def
  invalidStateError_def shouldQuit_def shouldShutdown_def Pid_def launch_write_def
  makeCommand_def Let_def

subsection \<open>NewService\<close>

lemma NewService_defaults:
  "NewService as (cwd, None) =
     (Some \<lparr>Directory = cwd, Environment = None, StartTimeout = 1000000000, StartRetries = 3,
            StopSignal = 2, StopTimeout = 5000000000, StopRestart = True, Stdout = None,
            Stderr = None, args = as, command = None, state = Stopped\<rparr>, None)"
  by (simp add: NewService_def DefaultStartTimeout_def DefaultStartRetries_def
      DefaultStopSignal_def DefaultStopTimeout_def DefaultStopRestart_def Second_def SIGINT_def)

lemma example_service_is_new:
  "NewService [''sleep'', ''10''] (''/'', None) = (Some example_service, None)"
  by (simp add: NewService_defaults example_service_def)

text \<open>
  Claim C8 says that \<^verbatim>\<open>NewService\<close> returns a service in state \<open>Stopped\<close> with the
  documented defaults (\<open>NewService_defaults\<close> above is that half), or returns an error
  when the working directory cannot be determined. The code does not: whatever error
  \<^verbatim>\<open>os.Getwd\<close> reports, \<^verbatim>\<open>NewService\<close> returns no service and no error, because the
  \<^verbatim>\<open>err\<close> it tests is a new variable of the \<^verbatim>\<open>if\<close> statement and the result \<^verbatim>\<open>err\<close> is
  never assigned.
\<close>

theorem NewService_getwd_error_is_dropped:
  "NewService as (cwd, Some e) = (None, None)"
  by (simp add: NewService_def)

subsection \<open>Runs that show where the loop leaves the specification\<close>

text \<open>
  Claim C1 says that when Backoff is entered with the retry counter at the maximum, the
  supervisor emits a Fatal event, resets the counter, answers the originating command
  with the last exit cause, and stays in Fatal until shutdown. The code has no Fatal
  state. With the default three retries, the fourth premature exit makes the loop
  emit \<open>Exited\<close>; the counter is reset and \<^verbatim>\<open>start\<close> is answered with the last exit
  cause, as the claim says; but the service is in \<open>Exited\<close>, and the next \<^verbatim>\<open>start\<close>
  command is accepted and begins a new attempt (the last event is \<open>Starting\<close>).
\<close>

theorem backoff_exhaustion_emits_Exited_and_start_is_accepted:
  "observed (Run example_service
     [CommandIn \<lparr>Name = Start, Response = Some 1\<rparr>,
      StateIn \<lparr>PState = Backoff, PError = Some ''process exited prematurely with failure: 1''\<rparr>,
      StateIn \<lparr>PState = Backoff, PError = Some ''process exited prematurely with failure: 2''\<rparr>,
      StateIn \<lparr>PState = Backoff, PError = Some ''process exited prematurely with failure: 3''\<rparr>,
      StateIn \<lparr>PState = Backoff, PError = Some ''process exited prematurely with failure: 4''\<rparr>,
      CommandIn \<lparr>Name = Start, Response = Some 2\<rparr>])
   = Some (Starting, Some \<lparr>Name = Start, Response = Some 2\<rparr>, 0,
       [EventOut \<lparr>EState = Starting, EError = None\<rparr>,
        EventOut \<lparr>EState = Backoff, EError = Some ''process exited prematurely with failure: 1''\<rparr>,
        EventOut \<lparr>EState = Starting, EError = None\<rparr>,
        EventOut \<lparr>EState = Backoff, EError = Some ''process exited prematurely with failure: 2''\<rparr>,
        EventOut \<lparr>EState = Starting, EError = None\<rparr>,
        EventOut \<lparr>EState = Backoff, EError = Some ''process exited prematurely with failure: 3''\<rparr>,
        EventOut \<lparr>EState = Starting, EError = None\<rparr>,
        EventOut \<lparr>EState = Exited, EError = Some ''process exited prematurely with failure: 4''\<rparr>,
        ResponseOut 1 \<lparr>RName = Start, RError = Some ''process exited prematurely with failure: 4''\<rparr>,
        EventOut \<lparr>EState = Starting, EError = None\<rparr>],
       False)"
  by (simp add: loop_defs observed_def example_service_def)

text \<open>
  Claim C3 says that the retry counter is reset to zero on every transition into
  Running (and grows between Backoff entries, and is reset when retries are
  exhausted). The Running case of the loop does not touch \<^verbatim>\<open>retries\<close>: after one
  premature exit and a second attempt that reaches Running, the service is Running,
  \<^verbatim>\<open>start\<close> has been answered with success, and the counter is still 1.
\<close>

theorem retries_not_reset_on_Running:
  "observed (Run example_service
     [CommandIn \<lparr>Name = Start, Response = Some 1\<rparr>,
      StateIn \<lparr>PState = Backoff, PError = Some ''process exited prematurely with success''\<rparr>,
      LaunchIn \<lparr>launchRes = Inr 42, waitRes = None\<rparr>,
      StateIn \<lparr>PState = Running, PError = None\<rparr>])
   = Some (Running, None, 1,
       [EventOut \<lparr>EState = Starting, EError = None\<rparr>,
        EventOut \<lparr>EState = Backoff, EError = Some ''process exited prematurely with success''\<rparr>,
        EventOut \<lparr>EState = Starting, EError = None\<rparr>,
        EventOut \<lparr>EState = Running, EError = None\<rparr>,
        ResponseOut 1 \<lparr>RName = Start, RError = None\<rparr>],
       False)"
  by (simp add: loop_defs observed_def example_service_def)

text \<open>
  Claim C4 says that a command arriving while another is in flight is rejected with the
  message "command is currently executing", and that an arriving shutdown fails the
  command in flight with "service is shutting down". In the code the first message
  is the unformatted "command %s is currently executing" and the second is spelled
  "service is shuttind down". Here \<^verbatim>\<open>start\<close> is in flight (the service is Starting);
  \<^verbatim>\<open>stop\<close> arrives and is rejected, the state unchanged; then \<^verbatim>\<open>shutdown\<close> arrives and
  takes the place of \<^verbatim>\<open>start\<close>.
\<close>

theorem in_flight_messages_as_coded:
  "observed (Run example_service
     [CommandIn \<lparr>Name = Start, Response = Some 1\<rparr>,
      CommandIn \<lparr>Name = Stop, Response = Some 2\<rparr>,
      CommandIn \<lparr>Name = Shutdown, Response = Some 3\<rparr>])
   = Some (Starting, Some \<lparr>Name = Shutdown, Response = Some 3\<rparr>, 0,
       [EventOut \<lparr>EState = Starting, EError = None\<rparr>,
        ResponseOut 2 \<lparr>RName = Stop, RError = Some ''command %s is currently executing''\<rparr>,
        ResponseOut 1 \<lparr>RName = Start, RError = Some ''service is shuttind down''\<rparr>],
       False)"
  by (simp add: loop_defs observed_def example_service_def)

text \<open>
  Claim C5 says that a shutdown accepted in Starting is deferred and that, once the
  child reports Running, the supervisor begins a stop sequence and, on Stopped,
  answers the shutdown with success and leaves the loop. In the code the Running case
  calls \<^verbatim>\<open>stop\<close> while the state is still Starting, so \<^verbatim>\<open>stop\<close> answers the shutdown
  with the invalid-transition error and clears it: no Stopping event, no signal to the
  child (PID 42 here), the state stays Starting, and \<^verbatim>\<open>Run\<close> has not returned.
\<close>

theorem shutdown_while_Starting_fails:
  "observed (Run example_service
     [CommandIn \<lparr>Name = Start, Response = Some 1\<rparr>,
      LaunchIn \<lparr>launchRes = Inr 42, waitRes = None\<rparr>,
      CommandIn \<lparr>Name = Shutdown, Response = Some 2\<rparr>,
      StateIn \<lparr>PState = Running, PError = None\<rparr>])
   = Some (Starting, None, 0,
       [EventOut \<lparr>EState = Starting, EError = None\<rparr>,
        ResponseOut 1 \<lparr>RName = Start, RError = Some ''service is shuttind down''\<rparr>,
        ResponseOut 2 \<lparr>RName = Shutdown,
                       RError = Some ''invalid state transition: starting -> stopping''\<rparr>],
       False)"
  by (simp add: loop_defs observed_def example_service_def)

subsection \<open>The lifecycle helper\<close>

lemmas helper_defs = helper_step_def main_step_def timer_step_def post_def helper_wf_def
  timer_early_def timer_default_def timer_late_def states_posted_def

lemma helper_wf_init: "helper_wf helper_init"
  by (simp add: helper_wf_def helper_init_def states_posted_def)

lemma helper_wf_main: "helper_wf h \<Longrightarrow> helper_wf (main_step sv ch h)"
  by (cases "hmain h") (auto simp: helper_defs split: sum.splits option.splits)

lemma helper_wf_timer: "helper_wf h \<Longrightarrow> helper_wf (timer_step h)"
  by (cases "hmain h"; cases "htimer h") (auto simp: helper_defs)

lemma helper_wf_step: "helper_wf h \<Longrightarrow> helper_wf (helper_step sv ch t h)"
  by (cases t) (simp_all add: helper_step_def helper_wf_main helper_wf_timer)




lemma no_main_panic:
  "args sv \<noteq> [] \<Longrightarrow> hmain h \<noteq> MPanicked \<Longrightarrow> hmain (helper_step sv ch t h) \<noteq> MPanicked"
  by (cases t; cases "hmain h")
     (auto simp: helper_step_def main_step_def timer_step_def post_def makeCommand_def
           split: sum.splits option.splits list.splits timer_pc.splits)







lemma wf_done_finished: "helper_wf h \<Longrightarrow> hmain h = MDone \<Longrightarrow> helper_finished h"
  by (auto simp: helper_wf_def helper_finished_def)

lemma finished_inert: "helper_finished h \<Longrightarrow> helper_step sv ch t h = h"
  by (cases t) (auto simp: helper_finished_def helper_step_def main_step_def timer_step_def)

text \<open>
  Without a program to run the helper does not get that far: \<^verbatim>\<open>makeCommand\<close> panics on
  \<^verbatim>\<open>s.args[0]\<close> in the first step, before anything is posted and before \<^verbatim>\<open>s.command\<close>
  is assigned.
\<close>

lemma helper_panics_without_program:
  "args sv = [] \<Longrightarrow>
   helper_panicked (helper_step sv ch MainT helper_init) \<and>
   posted (helper_step sv ch MainT helper_init) = [] \<and> launch_write ch sv = sv"
  by (simp add: helper_panicked_def helper_step_def main_step_def helper_init_def
        makeCommand_def launch_write_def)


























subsection \<open>What the loop's closures leave unchanged\<close>

lemma respond_proj [simp]:
  "svc (respond c e r) = svc r"
  "retries (respond c e r) = retries r"
  "helpers (respond c e r) = helpers r"
  "timers (respond c e r) = timers r"
  "command_loc (respond c e r) = command_loc r"
  by (simp_all add: respond_def split: option.splits)

lemma sendResponse_proj [simp]:
  "svc (sendResponse e r) = svc r"
  "retries (sendResponse e r) = retries r"
  "helpers (sendResponse e r) = helpers r"
  "timers (sendResponse e r) = timers r"
  by (simp_all add: sendResponse_def split: option.splits)

lemma sendEvent_proj [simp]:
  "svc (sendEvent st e r) = (svc r)\<lparr>state := st\<rparr>"
  "retries (sendEvent st e r) = retries r"
  "helpers (sendEvent st e r) = helpers r"
  "timers (sendEvent st e r) = timers r"
  by (simp_all add: sendEvent_def Let_def split: option.splits)

lemma start_proj [simp]:
  "retries (start r) = retries r"
  "timers (start r) = timers r"
  by (simp_all add: start_def Let_def)

lemma start_effect:
  "svc (start r) = (if startable r then (svc r)\<lparr>state := Starting\<rparr> else svc r)"
  "helpers (start r) = (if startable r then helpers r @ [helper_init] else helpers r)"
  by (auto simp: start_def startable_def Let_def)

lemma stop_effect:
  "stop r = Inr r' \<Longrightarrow>
     svc r' = (if state (svc r) = Running then (svc r)\<lparr>state := Stopping\<rparr> else svc r) \<and>
     helpers r' = helpers r"
  by (auto simp: stop_def Let_def split: if_splits sum.splits)

lemma on_kill_effect: "on_kill pid r = Inr r' \<Longrightarrow> svc r' = svc r \<and> helpers r' = helpers r"
  by (auto simp: on_kill_def split: sum.splits option.splits if_splits)

lemma start_invalid:
  "state (svc r) = Starting \<or> state (svc r) = Running \<or> state (svc r) = Stopping \<Longrightarrow>
   start r = sendResponse (Some (invalidStateError Starting r)) r"
  by (auto simp: start_def)

lemma stop_invalid:
  "state (svc r) \<noteq> Running \<Longrightarrow>
   stop r = Inr (sendResponse (Some (invalidStateError Stopping r)) r)"
  by (simp add: stop_def)

lemma sendResponse_in_flight:
  "sendResponse e (r\<lparr>command_loc := Some c\<rparr>) =
     (case Response c of
        None \<Rightarrow> r\<lparr>command_loc := None\<rparr>
      | Some ch \<Rightarrow>
          r\<lparr>command_loc := None,
            outputs := outputs r @ [ResponseOut ch \<lparr>RName = Name c, RError = e\<rparr>]\<rparr>)"
  by (simp add: sendResponse_def respond_def split: option.splits)

lemma on_state_Exited_cases:
  "PState ps = Exited \<Longrightarrow> on_state ps r = Inr r' \<Longrightarrow>
   r' = sendEvent Stopped None r \<or> r' = start (sendEvent Exited (PError ps) r) \<or>
   r' = sendEvent Exited (PError ps) r"
  by (simp add: on_state_def Let_def split: if_splits)

lemma on_state_Backoff_cases:
  "PState ps = Backoff \<Longrightarrow> on_state ps r = Inr r' \<Longrightarrow>
   r' = sendEvent Stopped None r \<or>
   r' = (start (sendEvent Backoff (PError ps) r))\<lparr>retries := retries r + 1\<rparr> \<or>
   r' = (sendEvent Exited (PError ps) r)\<lparr>retries := 0\<rparr>"
  by (simp add: on_state_def Let_def split: if_splits)

lemma on_state_Running_cases:
  "PState ps = Running \<Longrightarrow> on_state ps r = Inr r' \<Longrightarrow>
   stop r = Inr r' \<or> r' = sendEvent Running None r"
  by (simp add: on_state_def split: if_splits)

lemma deliver_one: "deliver [ps] r = on_state ps r"
  by (simp split: sum.splits)

subsection \<open>The retry counter\<close>

text \<open>
  What the loop does with \<^verbatim>\<open>retries\<close>: a Running notification leaves it as it is; a
  Backoff notification below the maximum emits Backoff, starts the next attempt and
  adds one; a Backoff notification at the maximum emits Exited and resets it (and
  \<open>sendEvent\<close> answers a pending \<^verbatim>\<open>start\<close>, \<^verbatim>\<open>restart\<close> or \<^verbatim>\<open>stop\<close> with the exit
  cause); and no step takes it out of the range from 0 to the maximum.
\<close>

lemma StartRetries_keep [simp]:
  "StartRetries (svc (start r)) = StartRetries (svc r)"
  "StartRetries (launch_write ch sv) = StartRetries sv"
  by (simp_all add: start_effect launch_write_def split: sum.splits)

lemma stop_retries: "stop r = Inr r' \<Longrightarrow> retries r' = retries r \<and> StartRetries (svc r') = StartRetries (svc r)"
  by (auto simp: stop_def Let_def split: if_splits sum.splits)

lemma Running_keeps_retries:
  "PState ps = Running \<Longrightarrow> on_state ps r = Inr r' \<Longrightarrow> retries r' = retries r"
  using on_state_Running_cases[of ps r r'] stop_retries[of r r'] by auto

lemma Backoff_retry:
  assumes "PState ps = Backoff" and "state (svc r) \<noteq> Stopping" and "retries r < StartRetries (svc r)"
  shows "on_state ps r = Inr ((start (sendEvent Backoff (PError ps) r))\<lparr>retries := retries r + 1\<rparr>)"
  using assms by (simp add: on_state_def Let_def)

lemma Backoff_exhausted:
  assumes "PState ps = Backoff" and "state (svc r) \<noteq> Stopping" and "\<not> retries r < StartRetries (svc r)"
  shows "on_state ps r = Inr ((sendEvent Exited (PError ps) r)\<lparr>retries := 0\<rparr>)"
  using assms by (simp add: on_state_def Let_def)

lemma retries_ok_simps [simp]:
  "retries_ok (start r) = retries_ok r"
  "retries_ok (sendEvent st e r) = retries_ok r"
  "retries_ok (sendResponse e r) = retries_ok r"
  "retries_ok (respond c e r) = retries_ok r"
  "retries_ok (r\<lparr>command_loc := co\<rparr>) = retries_ok r"
  by (simp_all add: retries_ok_def)

lemma retries_ok_stop: "retries_ok r \<Longrightarrow> stop r = Inr r' \<Longrightarrow> retries_ok r'"
  using stop_retries[of r r'] by (simp add: retries_ok_def)

lemma retries_ok_on_state: "retries_ok r \<Longrightarrow> on_state ps r = Inr r' \<Longrightarrow> retries_ok r'"
proof (cases "PState ps")
  case Running
  assume "retries_ok r" "on_state ps r = Inr r'"
  then show ?thesis
    using on_state_Running_cases[OF Running, of r r'] retries_ok_stop[of r r'] by auto
next
  case Exited
  assume "retries_ok r" "on_state ps r = Inr r'"
  then show ?thesis
    using on_state_Exited_cases[OF Exited, of r r'] by auto
next
  case Backoff
  assume "retries_ok r" "on_state ps r = Inr r'"
  then show ?thesis
    by (auto simp: on_state_def Let_def retries_ok_def Backoff split: if_splits)
qed (auto simp: on_state_def)

lemma retries_ok_dispatch: "retries_ok r \<Longrightarrow> dispatch r = Inr r' \<Longrightarrow> retries_ok r'"
proof (cases "command_loc r")
  case None
  assume "retries_ok r" "dispatch r = Inr r'"
  then show ?thesis using None by (simp add: dispatch_def)
next
  case (Some c)
  assume s: "retries_ok r" and d: "dispatch r = Inr r'"
  have e: "retries_ok (r\<lparr>svc := (svc r)\<lparr>state := Exited\<rparr>\<rparr>)"
    using s by (simp add: retries_ok_def)
  show ?thesis
    using s d e Some retries_ok_stop[of r r']
    by (cases "state (svc r)") (auto simp: dispatch_def split: if_splits)
qed

lemma retries_stay_in_range:
  assumes "retries_ok r" and "step i r = Inr r'"
  shows "retries_ok r'"
proof (cases i)
  case (StateIn ps)
  then show ?thesis using assms retries_ok_on_state by (simp add: step_def)
next
  case (CommandIn c)
  show ?thesis
  proof (cases "command_loc r")
    case None
    then show ?thesis
      using assms CommandIn retries_ok_dispatch[of "r\<lparr>command_loc := Some c\<rparr>" r']
      by (simp add: step_def on_command_def)
  next
    case (Some c0)
    then show ?thesis
      using assms CommandIn
        retries_ok_dispatch[of "(respond c0 (Some ''service is shuttind down'') r)\<lparr>command_loc := Some c\<rparr>" r']
      by (auto simp: step_def on_command_def split: if_splits)
  qed
next
  case (KillIn pid)
  then show ?thesis using assms
    by (auto simp: step_def on_kill_def retries_ok_def split: sum.splits option.splits if_splits)
next
  case (LaunchIn ch)
  then show ?thesis using assms by (auto simp: step_def retries_ok_def)
qed

subsection \<open>The kill guard\<close>

lemma kills_append: "kills (xs @ ys) = kills xs @ kills ys"
  by (induction xs rule: kills.induct) simp_all

text \<open>
  Nothing but the \<^verbatim>\<open>kill\<close> case sends a forced kill, and nothing but \<^verbatim>\<open>stop\<close> arms a timer:
  every other closure of the loop leaves the kills sent so far and the pending timers
  as they are.
\<close>

lemma kills_snoc [simp]:
  "kills (os @ [EventOut e]) = kills os"
  "kills (os @ [ResponseOut ch m]) = kills os"
  "kills (os @ [SignalOut p sg]) = kills os"
  "kills (os @ [KillOut p]) = kills os @ [p]"
  by (simp_all add: kills_append)

lemma kills_respond [simp]: "kills (outputs (respond c e r)) = kills (outputs r)"
  by (simp add: respond_def split: option.splits)

lemma kills_sendResponse [simp]: "kills (outputs (sendResponse e r)) = kills (outputs r)"
  by (simp add: sendResponse_def split: option.splits)

lemma kills_sendEvent [simp]: "kills (outputs (sendEvent st e r)) = kills (outputs r)"
  by (simp add: sendEvent_def Let_def split: option.splits)

lemma kills_start [simp]: "kills (outputs (start r)) = kills (outputs r)"
  by (simp add: start_def Let_def)

lemma stop_arms:
  "stop r = Inr r' \<Longrightarrow>
   kills (outputs r') = kills (outputs r) \<and> (timers r' = timers r \<or> armed (timers r) r')"
  by (auto simp: stop_def Let_def armed_def Pid_def split: if_splits sum.splits)

lemma on_state_arms:
  "on_state ps r = Inr r' \<Longrightarrow>
   kills (outputs r') = kills (outputs r) \<and> (timers r' = timers r \<or> armed (timers r) r')"
proof (cases "PState ps")
  case Running
  then show "on_state ps r = Inr r' \<Longrightarrow> ?thesis"
    using stop_arms[of r r'] by (auto simp: on_state_def split: if_splits)
next
  case Exited
  then show "on_state ps r = Inr r' \<Longrightarrow> ?thesis"
    by (auto simp: on_state_def Let_def split: if_splits)
next
  case Backoff
  then show "on_state ps r = Inr r' \<Longrightarrow> ?thesis"
    by (auto simp: on_state_def Let_def split: if_splits)
qed (auto simp: on_state_def)

lemma dispatch_arms:
  "dispatch r = Inr r' \<Longrightarrow>
   kills (outputs r') = kills (outputs r) \<and> (timers r' = timers r \<or> armed (timers r) r')"
  using stop_arms[of r r']
  by (cases "state (svc r)") (auto simp: dispatch_def split: option.splits if_splits)

lemma on_command_arms:
  "on_command c r = Inr r' \<Longrightarrow>
   kills (outputs r') = kills (outputs r) \<and> (timers r' = timers r \<or> armed (timers r) r')"
proof (cases "command_loc r")
  case None
  then show "on_command c r = Inr r' \<Longrightarrow> ?thesis"
    using dispatch_arms[of "r\<lparr>command_loc := Some c\<rparr>" r'] by (simp add: on_command_def)
next
  case (Some c0)
  then show "on_command c r = Inr r' \<Longrightarrow> ?thesis"
    using dispatch_arms[of "(respond c0 (Some ''service is shuttind down'') r)\<lparr>command_loc := Some c\<rparr>" r']
    by (auto simp: on_command_def split: if_splits)
qed

lemma on_kill_guard:
  "on_kill pid r = Inr r' \<Longrightarrow>
   timers r' = timers r \<and>
   (kills (outputs r') \<noteq> kills (outputs r) \<longrightarrow> Pid (svc r) = Inr pid)"
  by (auto simp: on_kill_def split: sum.splits option.splits if_splits)

lemma helper_step_posts:
  "drop (length (posted h)) (posted (helper_step sv ch t h)) = [] \<or>
   (\<exists>ps. drop (length (posted h)) (posted (helper_step sv ch t h)) = [ps])"
  by (cases t; cases "hmain h"; cases "htimer h")
     (auto simp: helper_step_def main_step_def timer_step_def post_def
           split: sum.splits option.splits)

lemma step_frame:
  assumes "step i r = Inr r'"
  shows "(kills (outputs r') \<noteq> kills (outputs r) \<longrightarrow> (\<exists>pid. i = KillIn pid \<and> Pid (svc r) = Inr pid)) \<and>
         (timers r' = timers r \<or> armed (timers r) r')"
  using assms on_state_arms[of _ r r'] on_command_arms[of _ r r'] on_kill_guard[of _ r r']
  by (cases i) (auto simp: step_def)

lemma sys_step_frame:
  assumes "sys_step a r = Inr r'"
  shows "(kills (outputs r') \<noteq> kills (outputs r) \<longrightarrow>
            (\<exists>i. a = TimerFire i \<and> i < length (timers r) \<and> Pid (svc r) = Inr (timers r ! i))) \<and>
         (timers r' = timers r \<or> armed (timers r) r' \<or>
            (\<exists>i. a = TimerFire i \<and> i < length (timers r) \<and> timers r' = fired i (timers r)))"
proof (cases a)
  case (Deliver c)
  then show ?thesis
    using assms on_command_arms[of c r r'] by (simp add: sys_step_def)
next
  case (TimerFire i)
  show ?thesis
  proof (cases "i < length (timers r)")
    case True
    then have "on_kill (timers r ! i) (r\<lparr>timers := fired i (timers r)\<rparr>) = Inr r'"
      using assms TimerFire by (simp add: sys_step_def fired_def)
    from on_kill_guard[OF this] show ?thesis
      using TimerFire True by simp
  next
    case False
    then show ?thesis
      using assms TimerFire by (simp add: sys_step_def)
  qed
next
  case (HelperAct i ch t)
  show ?thesis
  proof (cases "i < length (helpers r)")
    case False
    then show ?thesis
      using assms HelperAct by (simp add: sys_step_def)
  next
    case True
    let ?h = "helpers r ! i"
    let ?h' = "helper_step (svc r) ch t ?h"
    let ?r1 = "r\<lparr>svc := (if t = MainT \<and> hmain ?h = MStart then launch_write ch (svc r) else svc r),
                  helpers := (helpers r)[i := ?h']\<rparr>"
    have del: "deliver (drop (length (posted ?h)) (posted ?h')) ?r1 = Inr r'"
      using assms HelperAct True
      by (simp add: sys_step_def Let_def split: option.splits split del: if_split)
    have r1: "outputs ?r1 = outputs r" "timers ?r1 = timers r"
      by simp_all
    from helper_step_posts[of ?h "svc r" ch t]
    have "kills (outputs r') = kills (outputs ?r1) \<and>
          (timers r' = timers ?r1 \<or> armed (timers ?r1) r')"
    proof
      assume "drop (length (posted ?h)) (posted ?h') = []"
      then show ?thesis using del by simp
    next
      assume "\<exists>ps. drop (length (posted ?h)) (posted ?h') = [ps]"
      then obtain ps where d: "drop (length (posted ?h)) (posted ?h') = [ps]" ..
      have "on_state ps ?r1 = Inr r'"
        using del unfolding d deliver_one .
      then show ?thesis by (rule on_state_arms)
    qed
    then show ?thesis
      unfolding r1 by blast
  qed
qed

lemma kills_need_a_timer:
  "sys_run acts r = Inr r' \<Longrightarrow> kills (outputs r') \<noteq> kills (outputs r) \<Longrightarrow>
   \<exists>i. TimerFire i \<in> set acts"
proof (induction acts arbitrary: r)
  case Nil
  then show ?case by simp
next
  case (Cons a acts)
  show ?case
  proof (cases "shouldQuit r")
    case True
    then show ?thesis using Cons.prems by simp
  next
    case False
    then obtain r1 where s: "sys_step a r = Inr r1" and run: "sys_run acts r1 = Inr r'"
      using Cons.prems(1) by (auto split: sum.splits)
    show ?thesis
    proof (cases "kills (outputs r1) = kills (outputs r)")
      case True
      then have "\<exists>i. TimerFire i \<in> set acts"
        using Cons.IH[OF run] Cons.prems(2) by simp
      then show ?thesis by auto
    next
      case False
      then show ?thesis
        using sys_step_frame[OF s] by auto
    qed
  qed
qed

lemma stop_records_current_pid:
  assumes "state (svc r) = Running" and "stop r = Inr r1"
  shows "\<exists>pid. Pid (svc r1) = Inr pid \<and> timers r1 = timers r @ [pid] \<and>
               outputs r1 = outputs (sendEvent Stopping None r) @ [SignalOut pid (StopSignal (svc r))]
               \<and> state (svc r1) = Stopping"
proof -
  let ?r = "sendEvent Stopping None r"
  from assms obtain pid where p: "Pid (svc ?r) = Inr pid"
    and r1: "r1 = ?r\<lparr>outputs := outputs ?r @ [SignalOut pid (StopSignal (svc ?r))],
                     timers := timers ?r @ [pid]\<rparr>"
    by (auto simp: stop_def Let_def split: sum.splits)
  show ?thesis
    using p r1 by simp
qed

lemma timer_fire_guard:
  assumes "i < length (timers r)" and "sys_step (TimerFire i) r = Inr r'"
  shows "(kills (outputs r') \<noteq> kills (outputs r)) = (Pid (svc r) = Inr (timers r ! i)) \<and>
         (Pid (svc r) \<noteq> Inr (timers r ! i) \<longrightarrow> outputs r' = outputs r) \<and>
         (timers r ! i \<noteq> 0 \<and> kills (outputs r') \<noteq> kills (outputs r) \<longrightarrow>
            (state (svc r) = Running \<or> state (svc r) = Stopping) \<and>
            (\<exists>c. command (svc r) = Some c \<and> Process c = Some (timers r ! i)) \<and>
            outputs r' = outputs r @ [KillOut (timers r ! i)]) \<and>
         svc r' = svc r \<and> command_loc r' = command_loc r \<and> retries r' = retries r"
  using assms
  by (auto simp: sys_step_def on_kill_def Pid_def kills_append
           split: sum.splits option.splits if_splits)

text \<open>
  Claim C6: a forced kill is never issued unless the PID recorded when the stop signal
  was sent equals the PID of the live child when the kill notification is processed; a
  late notification whose PID no longer matches causes no kill.

  For every action of the system (a command, a step of a helper goroutine with the
  loop's handling of what it posts, the firing of a timer) and every state: if the
  kills sent change, the action is the firing of a pending timer whose PID equals what
  \<^verbatim>\<open>s.Pid()\<close> returns at that moment; and the pending timers stay as they are, or lose
  the timer that fired, or gain one that \<^verbatim>\<open>stop\<close> has just armed with the PID \<^verbatim>\<open>s.Pid()\<close>
  returns, the PID the stop signal went to (\<open>armed\<close>). The same holds for every input
  the loop can take from its three channels, whoever sends it: only a kill notification
  whose PID equals \<^verbatim>\<open>s.Pid()\<close> changes the kills. So in a run, of any length and from any
  state, the kills change only if a timer fires.

  In detail: a \<^verbatim>\<open>stop\<close> from Running arms a timer with the PID that \<^verbatim>\<open>s.Pid()\<close> returns
  at that moment, which is also the PID the stop signal goes to. When the \<open>i\<close>-th
  pending timer fires, the loop sends a kill if and only if the timer's PID equals what
  \<^verbatim>\<open>s.Pid()\<close> returns now (the PID of the child while Running or Stopping, 0 otherwise);
  when it differs nothing is sent. For a recorded PID other than 0 (and no host gives a
  child the PID 0, see \<open>system_never_panics\<close>) a kill means that the service is Running
  or Stopping, that the child handle carries exactly the recorded PID, and that the
  kill goes to that PID. The service, the command in flight and the retry counter stay
  as they are in every case.
\<close>

theorem kill_only_when_recorded_pid_is_current:
  "(sys_step a r = Inr r' \<longrightarrow>
      (kills (outputs r') \<noteq> kills (outputs r) \<longrightarrow>
         (\<exists>i. a = TimerFire i \<and> i < length (timers r) \<and> Pid (svc r) = Inr (timers r ! i))) \<and>
      (timers r' = timers r \<or> armed (timers r) r' \<or>
         (\<exists>i. a = TimerFire i \<and> i < length (timers r) \<and> timers r' = fired i (timers r)))) \<and>
   (step inp r = Inr r' \<longrightarrow>
      (kills (outputs r') \<noteq> kills (outputs r) \<longrightarrow>
         (\<exists>pid. inp = KillIn pid \<and> Pid (svc r) = Inr pid)) \<and>
      (timers r' = timers r \<or> armed (timers r) r')) \<and>
   (sys_run acts r = Inr r' \<and> kills (outputs r') \<noteq> kills (outputs r) \<longrightarrow>
      (\<exists>i. TimerFire i \<in> set acts)) \<and>
   (state (svc r0) = Running \<and> stop r0 = Inr r1 \<longrightarrow>
      (\<exists>pid. timers r1 = timers r0 @ [pid] \<and> Pid (svc r1) = Inr pid \<and>
             outputs r1 = outputs (sendEvent Stopping None r0) @
                            [SignalOut pid (StopSignal (svc r0))])) \<and>
   (i < length (timers r) \<and> sys_step (TimerFire i) r = Inr r' \<longrightarrow>
      (kills (outputs r') \<noteq> kills (outputs r)) = (Pid (svc r) = Inr (timers r ! i)) \<and>
      (Pid (svc r) \<noteq> Inr (timers r ! i) \<longrightarrow> outputs r' = outputs r) \<and>
      (timers r ! i \<noteq> 0 \<and> kills (outputs r') \<noteq> kills (outputs r) \<longrightarrow>
         (state (svc r) = Running \<or> state (svc r) = Stopping) \<and>
         (\<exists>c. command (svc r) = Some c \<and> Process c = Some (timers r ! i)) \<and>
         outputs r' = outputs r @ [KillOut (timers r ! i)]) \<and>
      svc r' = svc r \<and> command_loc r' = command_loc r \<and> retries r' = retries r)"
proof -
  have 1: "sys_step a r = Inr r' \<longrightarrow>
      (kills (outputs r') \<noteq> kills (outputs r) \<longrightarrow>
         (\<exists>i. a = TimerFire i \<and> i < length (timers r) \<and> Pid (svc r) = Inr (timers r ! i))) \<and>
      (timers r' = timers r \<or> armed (timers r) r' \<or>
         (\<exists>i. a = TimerFire i \<and> i < length (timers r) \<and> timers r' = fired i (timers r)))"
    using sys_step_frame[of a r r'] by blast
  have 2: "step inp r = Inr r' \<longrightarrow>
      (kills (outputs r') \<noteq> kills (outputs r) \<longrightarrow>
         (\<exists>pid. inp = KillIn pid \<and> Pid (svc r) = Inr pid)) \<and>
      (timers r' = timers r \<or> armed (timers r) r')"
    using step_frame[of inp r r'] by blast
  have 3: "sys_run acts r = Inr r' \<and> kills (outputs r') \<noteq> kills (outputs r) \<longrightarrow>
      (\<exists>i. TimerFire i \<in> set acts)"
    using kills_need_a_timer[of acts r r'] by blast
  have 4: "state (svc r0) = Running \<and> stop r0 = Inr r1 \<longrightarrow>
      (\<exists>pid. timers r1 = timers r0 @ [pid] \<and> Pid (svc r1) = Inr pid \<and>
             outputs r1 = outputs (sendEvent Stopping None r0) @
                            [SignalOut pid (StopSignal (svc r0))])"
    using stop_records_current_pid[of r0 r1] by blast
  have 5: "i < length (timers r) \<and> sys_step (TimerFire i) r = Inr r' \<longrightarrow>
      (kills (outputs r') \<noteq> kills (outputs r)) = (Pid (svc r) = Inr (timers r ! i)) \<and>
      (Pid (svc r) \<noteq> Inr (timers r ! i) \<longrightarrow> outputs r' = outputs r) \<and>
      (timers r ! i \<noteq> 0 \<and> kills (outputs r') \<noteq> kills (outputs r) \<longrightarrow>
         (state (svc r) = Running \<or> state (svc r) = Stopping) \<and>
         (\<exists>c. command (svc r) = Some c \<and> Process c = Some (timers r ! i)) \<and>
         outputs r' = outputs r @ [KillOut (timers r ! i)]) \<and>
      svc r' = svc r \<and> command_loc r' = command_loc r \<and> retries r' = retries r"
    using timer_fire_guard[of i r r'] by blast
  show ?thesis
    using 1 2 3 4 5 by (intro conjI)
qed

text \<open>
  The theorem at the example states: the service is Running with child 42 and a stale
  timer for PID 41 pending; \<^verbatim>\<open>stop\<close> records 42; then the stale timer causes no kill
  and the current one does.
\<close>

lemma example_stop: "stop example_running = Inr example_stopping"
  by (simp add: example_running_def example_stopping_def example_service_def stop_def
        sendEvent_def Pid_def Let_def)

lemma example_fire_stale:
  "sys_step (TimerFire 0) example_stopping = Inr (example_stopping\<lparr>timers := [42]\<rparr>)"
  by (simp add: example_running_def example_stopping_def example_service_def sys_step_def
        on_kill_def Pid_def)

lemma example_fire_current:
  "sys_step (TimerFire 1) example_stopping =
     Inr (example_stopping\<lparr>timers := [41],
            outputs := [EventOut \<lparr>EState = Stopping, EError = None\<rparr>, SignalOut 42 2, KillOut 42]\<rparr>)"
  by (simp add: example_running_def example_stopping_def example_service_def sys_step_def
        on_kill_def Pid_def)

theorem kill_only_when_recorded_pid_is_current_witness:
  "state (svc example_running) = Running \<and> stop example_running = Inr example_stopping \<and>
   timers example_stopping = [41, 42] \<and> Pid (svc example_stopping) = Inr 42 \<and>
   kills (outputs (example_stopping\<lparr>timers := [42]\<rparr>)) = kills (outputs example_stopping) \<and>
   sys_step (TimerFire 1) example_stopping =
     Inr (example_stopping\<lparr>timers := [41],
            outputs := [EventOut \<lparr>EState = Stopping, EError = None\<rparr>, SignalOut 42 2, KillOut 42]\<rparr>) \<and>
   kills (outputs (example_stopping\<lparr>timers := [41],
            outputs := [EventOut \<lparr>EState = Stopping, EError = None\<rparr>, SignalOut 42 2, KillOut 42]\<rparr>))
     \<noteq> kills (outputs example_stopping)"
proof -
  have a: "state (svc example_running) = Running"
    by (simp add: example_running_def)
  have t: "timers example_stopping = [41, 42]" "Pid (svc example_stopping) = Inr 42"
    by (simp_all add: example_stopping_def example_running_def Pid_def)
  have stale:
    "kills (outputs (example_stopping\<lparr>timers := [42]\<rparr>)) = kills (outputs example_stopping)"
    using kill_only_when_recorded_pid_is_current
            [where ?r0.0 = example_running and ?r1.0 = example_stopping and i = 0
               and r = example_stopping and r' = "example_stopping\<lparr>timers := [42]\<rparr>"
               and a = "TimerFire 0" and inp = "KillIn 41" and acts = "[TimerFire 0]"]
          example_fire_stale t
    by simp
  have cur:
    "kills (outputs (example_stopping\<lparr>timers := [41],
            outputs := [EventOut \<lparr>EState = Stopping, EError = None\<rparr>, SignalOut 42 2, KillOut 42]\<rparr>))
     \<noteq> kills (outputs example_stopping)"
    using kill_only_when_recorded_pid_is_current
            [where ?r0.0 = example_running and ?r1.0 = example_stopping and i = 1
               and r = example_stopping
               and r' = "example_stopping\<lparr>timers := [41],
                  outputs := [EventOut \<lparr>EState = Stopping, EError = None\<rparr>, SignalOut 42 2, KillOut 42]\<rparr>"
               and a = "TimerFire 1" and inp = "KillIn 42" and acts = "[TimerFire 1]"]
          example_fire_current t
    by simp
  show ?thesis
    using a example_stop t stale cur example_fire_current by simp
qed

subsection \<open>Commands the state forbids\<close>

text \<open>
  Claim C7 says that whenever a command arrives in a state that forbids it, the
  supervisor answers it with "invalid state transition: <from> -> <to>", the state is
  unchanged and no event is emitted. As stated this fails when another command is in
  flight, because the guard on the command in flight comes first: the example service
  is Starting with \<^verbatim>\<open>start\<close> in flight (the first conjunct: that is where a run with one
  \<^verbatim>\<open>start\<close> stands); the table forbids \<^verbatim>\<open>stop\<close> in Starting; and the loop's answer
  to \<^verbatim>\<open>stop\<close> is not the invalid-transition response.
\<close>

theorem invalid_command_while_in_flight_counterexample:
  "Run example_service [CommandIn \<lparr>Name = Start, Response = Some 1\<rparr>] = Inr (example_starting, False) \<and>
   spec_invalid Stop (state (svc example_starting)) \<and>
   on_command \<lparr>Name = Stop, Response = Some 2\<rparr> example_starting \<noteq>
     Inr (example_starting
            \<lparr>outputs := outputs example_starting @
               [ResponseOut 2
                  \<lparr>RName = Stop,
                   RError = Some (invalid_transition (state (svc example_starting)) (attempted Stop))\<rparr>]\<rparr>)"
  by (simp add: loop_defs example_starting_def example_service_def spec_invalid_def attempted_def
        invalid_transition_def helper_init_def)

text \<open>
  Claim C7 as amended: whenever a command arrives while no other command is in flight
  and in a state that forbids it, the supervisor answers that command, on its reply
  sink if it has one, with the error "invalid state transition: <from> -> <to>",
  <from> the current state and <to> the state the command tries to enter (Starting
  for \<^verbatim>\<open>start\<close>, Stopping for \<^verbatim>\<open>stop\<close> and \<^verbatim>\<open>restart\<close>); nothing else changes: the state
  is the same, no event is emitted, and no command is in flight afterwards.
\<close>

theorem invalid_command_rejected:
  assumes "command_loc r = None" and "spec_invalid (Name c) (state (svc r))"
  shows "on_command c r =
           Inr (case Response c of
                  None \<Rightarrow> r
                | Some ch \<Rightarrow>
                    r\<lparr>outputs := outputs r @
                        [ResponseOut ch
                           \<lparr>RName = Name c,
                            RError = Some (invalid_transition (state (svc r)) (attempted (Name c)))\<rparr>]\<rparr>)"
proof -
  let ?r = "r\<lparr>command_loc := Some c\<rparr>"
  have same: "r\<lparr>command_loc := None\<rparr> = r"
    using assms(1) by simp
  have d: "on_command c r = dispatch ?r"
    using assms(1) by (simp add: on_command_def)
  consider (start) "Name c = Start"
        "state (svc r) = Starting \<or> state (svc r) = Running \<or> state (svc r) = Stopping"
    | (stop) "Name c = Stop" "state (svc r) \<noteq> Running"
    | (restart) "Name c = Restart"
        "state (svc r) = Starting \<or> state (svc r) = Stopping \<or> state (svc r) = Backoff"
    using assms(2) by (auto simp: spec_invalid_def split: if_splits)
  then show ?thesis
  proof cases
    case start
    then have "dispatch ?r = Inr (sendResponse (Some (invalidStateError Starting ?r)) ?r)"
      using start_invalid[of ?r] by (simp add: dispatch_def)
    then show ?thesis
      using start(1) d same
      by (simp add: sendResponse_in_flight invalidStateError_def invalid_transition_def
            attempted_def split: option.splits)
  next
    case stop
    then have "dispatch ?r = Inr (sendResponse (Some (invalidStateError Stopping ?r)) ?r)"
      using stop_invalid[of ?r] by (simp add: dispatch_def)
    then show ?thesis
      using stop(1) d same
      by (simp add: sendResponse_in_flight invalidStateError_def invalid_transition_def
            attempted_def split: option.splits)
  next
    case restart
    then have "dispatch ?r = Inr (sendResponse (Some (invalidStateError Stopping ?r)) ?r)"
      by (auto simp: dispatch_def)
    then show ?thesis
      using restart(1) d same
      by (simp add: sendResponse_in_flight invalidStateError_def invalid_transition_def
            attempted_def split: option.splits)
  qed
qed

text \<open>The theorem at the new example service (Stopped, nothing in flight) and \<^verbatim>\<open>stop\<close>.\<close>

theorem invalid_command_rejected_witness:
  "command_loc (Run_init example_service) = None \<and>
   spec_invalid (Name \<lparr>Name = Stop, Response = Some 2\<rparr>) (state (svc (Run_init example_service))) \<and>
   on_command \<lparr>Name = Stop, Response = Some 2\<rparr> (Run_init example_service) =
     Inr ((Run_init example_service)
            \<lparr>outputs := [ResponseOut 2
                 \<lparr>RName = Stop, RError = Some ''invalid state transition: stopped -> stopping''\<rparr>]\<rparr>)"
proof -
  have a: "command_loc (Run_init example_service) = None"
    by (simp add: Run_init_def)
  have b: "spec_invalid (Name \<lparr>Name = Stop, Response = Some 2\<rparr>)
             (state (svc (Run_init example_service)))"
    by (simp add: Run_init_def example_service_def spec_invalid_def)
  show ?thesis
    using a b invalid_command_rejected[OF a b]
    by (simp add: Run_init_def example_service_def invalid_transition_def attempted_def)
qed

subsection \<open>The child handle\<close>

lemma sys_inv_cong: "svc r' = svc r \<Longrightarrow> helpers r' = helpers r \<Longrightarrow> sys_inv r' = sys_inv r"
  by (cases "hmain (last (helpers r))") (simp_all add: sys_inv_def)

lemma handle_ok_state [simp]: "handle_ok (sv\<lparr>state := st\<rparr>) = handle_ok sv"
  by (simp add: handle_ok_def)

lemma launch_write_state [simp]: "state (launch_write ch sv) = state sv"
  by (simp add: launch_write_def split: sum.splits)

lemma sys_inv_snoc:
  "helpers r = hs @ [h] \<Longrightarrow>
   sys_inv r =
     (list_all (\<lambda>h. helper_wf h \<and> hmain h = MDone) hs \<and> helper_wf h \<and>
      (case hmain h of
         MStart \<Rightarrow> state (svc r) = Starting
       | MDone \<Rightarrow> state (svc r) = Stopped \<or> state (svc r) = Exited
       | MPanicked \<Rightarrow> False
       | _ \<Rightarrow> handle_ok (svc r) \<and>
             (state (svc r) = Starting \<or> state (svc r) = Running \<or> state (svc r) = Stopping)))"
  by (simp add: sys_inv_def)

lemma sys_inv_Nil:
  "helpers r = [] \<Longrightarrow> sys_inv r = (state (svc r) = Stopped \<or> state (svc r) = Exited)"
  by (simp add: sys_inv_def)

lemma sys_inv_upd1:
  "sys_inv (r\<lparr>svc := sv, helpers := hs @ [h]\<rparr>) =
     (list_all (\<lambda>h. helper_wf h \<and> hmain h = MDone) hs \<and> helper_wf h \<and>
      (case hmain h of
         MStart \<Rightarrow> state sv = Starting
       | MDone \<Rightarrow> state sv = Stopped \<or> state sv = Exited
       | MPanicked \<Rightarrow> False
       | _ \<Rightarrow> handle_ok sv \<and> (state sv = Starting \<or> state sv = Running \<or> state sv = Stopping)))"
  by (cases "hmain h") (simp_all add: sys_inv_def)

lemma sys_inv_upd2:
  "sys_inv (r\<lparr>helpers := hs @ [h]\<rparr>) =
     (list_all (\<lambda>h. helper_wf h \<and> hmain h = MDone) hs \<and> helper_wf h \<and>
      (case hmain h of
         MStart \<Rightarrow> state (svc r) = Starting
       | MDone \<Rightarrow> state (svc r) = Stopped \<or> state (svc r) = Exited
       | MPanicked \<Rightarrow> False
       | _ \<Rightarrow> handle_ok (svc r) \<and>
             (state (svc r) = Starting \<or> state (svc r) = Running \<or> state (svc r) = Stopping)))"
  by (cases "hmain h") (simp_all add: sys_inv_def)

lemmas sys_inv_upd = sys_inv_upd1 sys_inv_upd2

lemma sys_inv_retries: "sys_inv (x\<lparr>retries := n\<rparr>) = sys_inv x"
  by (rule sys_inv_cong) simp_all

lemma sys_inv_not_Backoff: "sys_inv r \<Longrightarrow> state (svc r) \<noteq> Backoff"
  by (cases "helpers r" rule: rev_cases)
     (auto simp: sys_inv_Nil sys_inv_snoc split: main_pc.splits)

lemma sys_inv_startable_idle: "sys_inv r \<Longrightarrow> startable r \<Longrightarrow> idle r"
  by (cases "helpers r" rule: rev_cases)
     (auto simp: sys_inv_Nil sys_inv_snoc idle_def startable_def split: main_pc.splits)

lemma idle_sys_inv:
  "idle r \<Longrightarrow> state (svc r) = Stopped \<or> state (svc r) = Exited \<Longrightarrow> sys_inv r"
  by (cases "helpers r" rule: rev_cases)
     (auto simp: sys_inv_Nil sys_inv_snoc idle_def)

text \<open>A new helper is spawned only when every earlier one has finished.\<close>

lemma idle_start: "idle r \<Longrightarrow> startable r \<Longrightarrow> sys_inv (start r)"
proof -
  assume i: "idle r" and s: "startable r"
  have h: "helpers (start r) = helpers r @ [helper_init]"
    and st: "state (svc (start r)) = Starting"
    using s by (simp_all add: start_effect)
  have m: "hmain helper_init = MStart"
    by (simp add: helper_init_def)
  show ?thesis
    using i st m by (simp add: sys_inv_snoc[OF h] idle_def helper_wf_init)
qed

lemma sys_inv_start: "sys_inv r \<Longrightarrow> sys_inv (start r)"
proof (cases "startable r")
  case True
  assume "sys_inv r"
  then show ?thesis
    using True idle_start sys_inv_startable_idle by blast
next
  case False
  assume "sys_inv r"
  then show ?thesis
    using False sys_inv_cong[of "start r" r] by (simp add: start_effect)
qed

lemma sys_inv_stop: "sys_inv r \<Longrightarrow> stop r = Inr r' \<Longrightarrow> sys_inv r'"
proof -
  assume inv: "sys_inv r" and st: "stop r = Inr r'"
  note eff = stop_effect[OF st]
  show ?thesis
  proof (cases "state (svc r) = Running")
    case True
    then show ?thesis
      using inv eff
      by (cases "helpers r" rule: rev_cases)
         (auto simp: sys_inv_Nil sys_inv_snoc split: main_pc.splits)
  next
    case False
    then show ?thesis
      using inv eff sys_inv_cong[of r' r] by simp
  qed
qed

lemma sys_inv_dispatch: "sys_inv r \<Longrightarrow> dispatch r = Inr r' \<Longrightarrow> sys_inv r'"
proof -
  assume inv: "sys_inv r" and d: "dispatch r = Inr r'"
  have nb: "state (svc r) \<noteq> Backoff"
    using inv by (rule sys_inv_not_Backoff)
  have resp: "\<And>e. sys_inv (sendResponse e r)"
    using inv sys_inv_cong[of "sendResponse _ r" r] by simp
  show ?thesis
  proof (cases "command_loc r")
    case None
    then show ?thesis
      using inv d by (simp add: dispatch_def)
  next
    case (Some c)
    then show ?thesis
      using inv d nb resp sys_inv_start[OF inv] sys_inv_stop[OF inv, of r']
      by (cases "state (svc r)") (auto simp: dispatch_def split: if_splits)
  qed
qed

lemma sys_inv_on_command: "sys_inv r \<Longrightarrow> on_command c r = Inr r' \<Longrightarrow> sys_inv r'"
proof -
  assume inv: "sys_inv r" and oc: "on_command c r = Inr r'"
  have a: "sys_inv (r\<lparr>command_loc := Some c\<rparr>)"
    using inv sys_inv_cong[of "r\<lparr>command_loc := Some c\<rparr>" r] by simp
  have b: "\<And>c0 e. sys_inv ((respond c0 e r)\<lparr>command_loc := Some c\<rparr>)"
    using inv sys_inv_cong[of "(respond _ _ r)\<lparr>command_loc := Some c\<rparr>" r] by simp
  have c: "\<And>e. sys_inv (respond c e r)"
    using inv sys_inv_cong[of "respond c _ r" r] by simp
  show ?thesis
  proof (cases "command_loc r")
    case None
    then have "dispatch (r\<lparr>command_loc := Some c\<rparr>) = Inr r'"
      using oc by (simp add: on_command_def)
    then show ?thesis
      using a by (rule sys_inv_dispatch[rotated])
  next
    case (Some c0)
    show ?thesis
    proof (cases "Name c = Shutdown")
      case True
      then have "dispatch ((respond c0 (Some ''service is shuttind down'') r)
                             \<lparr>command_loc := Some c\<rparr>) = Inr r'"
        using oc Some by (simp add: on_command_def)
      then show ?thesis
        using b by (rule sys_inv_dispatch[rotated])
    next
      case False
      then have "r' = respond c (Some ''command %s is currently executing'') r"
        using oc Some by (simp add: on_command_def)
      then show ?thesis
        using c by simp
    qed
  qed
qed

text \<open>The final post of a helper is handled with every helper finished.\<close>

lemma idle_on_state_final:
  assumes "idle r" and "PState ps = Exited \<or> PState ps = Backoff" and "on_state ps r = Inr r'"
  shows "sys_inv r'"
proof -
  have ev: "\<And>st e. idle (sendEvent st e r)"
    using assms(1) by (simp add: idle_def)
  have A: "sys_inv (sendEvent Stopped None r)" "sys_inv (sendEvent Exited (PError ps) r)"
    using ev by (simp_all add: idle_sys_inv)
  have B: "sys_inv (start (sendEvent Exited (PError ps) r))"
          "sys_inv (start (sendEvent Backoff (PError ps) r))"
    using ev by (simp_all add: idle_start startable_def)
  from assms(2) show ?thesis
  proof
    assume "PState ps = Exited"
    from on_state_Exited_cases[OF this assms(3)] show ?thesis
      using A B by blast
  next
    assume "PState ps = Backoff"
    from on_state_Backoff_cases[OF this assms(3)] show ?thesis
      using A B by (auto simp: sys_inv_retries)
  qed
qed

text \<open>What one step of a helper goroutine can do to the posts and to the first goroutine.\<close>

lemma main_step_cases:
  assumes "helper_wf h" and "hmain (main_step sv ch h) \<noteq> MPanicked"
  shows "(posted (main_step sv ch h) = posted h \<and> hmain (main_step sv ch h) = hmain h \<and>
            hmain h \<noteq> MStart) \<or>
         (posted (main_step sv ch h) = posted h \<and> launched (hmain h) \<and>
            launched (hmain (main_step sv ch h))) \<or>
         (posted (main_step sv ch h) = posted h \<and> hmain h = MStart \<and>
            hmain (main_step sv ch h) = MWait \<and> handle_ok (launch_write ch sv)) \<or>
         (\<exists>ps. posted (main_step sv ch h) = posted h @ [ps] \<and>
               (PState ps = Exited \<or> PState ps = Backoff) \<and>
               hmain (main_step sv ch h) = MDone)"
  using assms
  by (cases "hmain h")
     (auto simp: main_step_def post_def launched_def launch_write_def handle_ok_def helper_wf_def
           split: sum.splits option.splits)

lemma timer_step_cases:
  assumes "helper_wf h"
  shows "(posted (timer_step h) = posted h \<and> hmain (timer_step h) = hmain h) \<or>
         (posted (timer_step h) = posted h @ [\<lparr>PState = Running, PError = None\<rparr>] \<and>
            launched (hmain h) \<and> hmain (timer_step h) = hmain h)"
  using assms
  by (cases "hmain h"; cases "htimer h")
     (auto simp: timer_step_def post_def launched_def helper_wf_def timer_early_def
           timer_default_def timer_late_def states_posted_def)

lemma sys_inv_old_helper:
  assumes inv: "sys_inv r" and hs: "helpers r = hs0 @ [h]" and i: "i < length hs0"
    and step: "sys_step (HelperAct i ch t) r = Inr r'"
  shows "sys_inv r'"
proof -
  let ?h = "hs0 ! i"
  have nth: "helpers r ! i = ?h"
    using hs i by (simp add: nth_append)
  have "helper_wf ?h \<and> hmain ?h = MDone"
    using inv hs i by (simp add: sys_inv_snoc list_all_length)
  then have fin: "helper_finished ?h" and m: "hmain ?h = MDone"
    by (simp_all add: wf_done_finished)
  have inert: "helper_step (svc r) ch t ?h = ?h"
    using fin by (rule finished_inert)
  have np: "helper_panic ?h = None"
    using fin by (auto simp: helper_panic_def helper_finished_def)
  have "r' = r\<lparr>svc := svc r, helpers := (helpers r)[i := ?h]\<rparr>"
    using step hs i nth inert np m by (simp add: sys_step_def Let_def)
  moreover have "(helpers r)[i := ?h] = helpers r"
    using nth list_update_id[of "helpers r" i] by simp
  ultimately have "svc r' = svc r" "helpers r' = helpers r"
    by simp_all
  then show ?thesis
    using inv sys_inv_cong by blast
qed

lemma sys_inv_last_helper:
  assumes inv: "sys_inv r" and hs: "helpers r = hs0 @ [h]"
    and step: "sys_step (HelperAct (length hs0) ch t) r = Inr r'"
  shows "sys_inv r'"
proof -
  let ?h' = "helper_step (svc r) ch t h"
  let ?sv = "if t = MainT \<and> hmain h = MStart then launch_write ch (svc r) else svc r"
  let ?r1 = "r\<lparr>svc := ?sv, helpers := hs0 @ [?h']\<rparr>"
  have done0: "list_all (\<lambda>h. helper_wf h \<and> hmain h = MDone) hs0" and wf: "helper_wf h"
    using inv hs by (simp_all add: sys_inv_snoc)
  have wf': "helper_wf ?h'"
    using wf by (rule helper_wf_step)
  have np: "helper_panic ?h' = None"
    and del: "deliver (drop (length (posted h)) (posted ?h')) ?r1 = Inr r'"
    using step hs by (auto simp: sys_step_def Let_def split: option.splits)
  have nP: "hmain ?h' \<noteq> MPanicked"
    using np by (auto simp: helper_panic_def split: if_splits)
  have final: "\<And>ps. posted ?h' = posted h @ [ps] \<Longrightarrow> PState ps = Exited \<or> PState ps = Backoff \<Longrightarrow>
                 hmain ?h' = MDone \<Longrightarrow> sys_inv r'"
  proof -
    fix ps
    assume p: "posted ?h' = posted h @ [ps]" and k: "PState ps = Exited \<or> PState ps = Backoff"
      and m: "hmain ?h' = MDone"
    have "idle ?r1"
      using done0 wf' m by (simp add: idle_def)
    moreover have d: "drop (length (posted h)) (posted ?h') = [ps]"
      using p by simp
    have "on_state ps ?r1 = Inr r'"
      using del unfolding d deliver_one .
    ultimately show "sys_inv r'"
      using k idle_on_state_final by blast
  qed
  have quiet: "posted ?h' = posted h \<Longrightarrow> r' = ?r1"
    using del by simp
  show ?thesis
  proof (cases t)
    case TimerT
    then have h': "?h' = timer_step h" and sv: "?sv = svc r"
      by (simp_all add: helper_step_def)
    have same: "hmain ?h' = hmain h"
      using timer_step_cases[OF wf] h' by auto
    have inv1: "sys_inv ?r1"
      using inv hs wf' same unfolding sv by (simp add: sys_inv_snoc[OF hs] sys_inv_upd)
    from timer_step_cases[OF wf] show ?thesis
    proof
      assume "posted (timer_step h) = posted h \<and> hmain (timer_step h) = hmain h"
      then show ?thesis
        using quiet h' inv1 by simp
    next
      assume a: "posted (timer_step h) = posted h @ [\<lparr>PState = Running, PError = None\<rparr>] \<and>
                 launched (hmain h) \<and> hmain (timer_step h) = hmain h"
      then have d: "drop (length (posted h)) (posted ?h') = [\<lparr>PState = Running, PError = None\<rparr>]"
        using h' by simp
      have run: "on_state \<lparr>PState = Running, PError = None\<rparr> ?r1 = Inr r'"
        using del unfolding d deliver_one .
      have "stop ?r1 = Inr r' \<or> r' = sendEvent Running None ?r1"
        by (rule on_state_Running_cases[OF _ run]) simp
      then show ?thesis
      proof
        assume "stop ?r1 = Inr r'"
        then show ?thesis
          using inv1 sys_inv_stop by blast
      next
        assume r': "r' = sendEvent Running None ?r1"
        have "helpers r' = hs0 @ [?h']"
          unfolding r' by simp
        then show ?thesis
          using a inv1 same unfolding r'
          by (auto simp: sys_inv_snoc launched_def split: main_pc.splits)
      qed
    qed
  next
    case MainT
    then have h': "?h' = main_step (svc r) ch h"
      by (simp add: helper_step_def)
    have nP': "hmain (main_step (svc r) ch h) \<noteq> MPanicked"
      using nP h' by simp
    from main_step_cases[OF wf nP'] consider
        (same) "posted ?h' = posted h" "hmain ?h' = hmain h" "hmain h \<noteq> MStart"
      | (moved) "posted ?h' = posted h" "launched (hmain h)" "launched (hmain ?h')"
      | (ok) "posted ?h' = posted h" "hmain h = MStart" "hmain ?h' = MWait"
             "handle_ok (launch_write ch (svc r))"
      | (last) ps where "posted ?h' = posted h @ [ps]" "PState ps = Exited \<or> PState ps = Backoff"
             "hmain ?h' = MDone"
      unfolding h' by blast
    then show ?thesis
    proof cases
      case same
      then have "sys_inv ?r1"
        using inv wf' by (simp add: sys_inv_snoc[OF hs] sys_inv_upd)
      then show ?thesis
        using quiet same by simp
    next
      case moved
      then have "hmain h \<noteq> MStart"
        by (auto simp: launched_def)
      then have "sys_inv ?r1"
        using inv wf' moved
        by (auto simp: sys_inv_snoc[OF hs] sys_inv_upd launched_def split: main_pc.splits)
      then show ?thesis
        using quiet moved by simp
    next
      case ok
      then have "sys_inv ?r1"
        using inv wf' MainT by (simp add: sys_inv_snoc[OF hs] sys_inv_upd)
      then show ?thesis
        using quiet ok by simp
    next
      case last
      then show ?thesis
        using final by blast
    qed
  qed
qed

lemma sys_inv_step: "sys_inv r \<Longrightarrow> sys_step a r = Inr r' \<Longrightarrow> sys_inv r'"
proof (cases a)
  case (Deliver c)
  assume "sys_inv r" "sys_step a r = Inr r'"
  then show ?thesis
    using Deliver sys_inv_on_command[of r c r'] by (simp add: sys_step_def)
next
  case (TimerFire i)
  assume inv: "sys_inv r" and st: "sys_step a r = Inr r'"
  show ?thesis
  proof (cases "i < length (timers r)")
    case True
    let ?r = "r\<lparr>timers := take i (timers r) @ drop (Suc i) (timers r)\<rparr>"
    have "on_kill (timers r ! i) ?r = Inr r'"
      using st TimerFire True by (simp add: sys_step_def)
    then have "svc r' = svc r" "helpers r' = helpers r"
      using on_kill_effect[of "timers r ! i" ?r r'] by simp_all
    then show ?thesis
      using inv sys_inv_cong by blast
  next
    case False
    then show ?thesis
      using inv st TimerFire by (simp add: sys_step_def)
  qed
next
  case (HelperAct i ch t)
  assume inv: "sys_inv r" and st: "sys_step a r = Inr r'"
  show ?thesis
  proof (cases "i < length (helpers r)")
    case False
    then show ?thesis
      using inv st HelperAct by (simp add: sys_step_def)
  next
    case True
    then obtain hs0 h where hs: "helpers r = hs0 @ [h]"
      by (cases "helpers r" rule: rev_cases) auto
    then have "i < length hs0 \<or> i = length hs0"
      using True by auto
    then show ?thesis
      using inv hs st HelperAct sys_inv_old_helper[of r hs0 h i ch t r']
        sys_inv_last_helper[of r hs0 h ch t r'] by auto
  qed
qed

lemma sys_inv_run: "sys_inv r \<Longrightarrow> sys_run acts r = Inr r' \<Longrightarrow> sys_inv r'"
proof (induction acts arbitrary: r)
  case Nil
  then show ?case by simp
next
  case (Cons a acts)
  show ?case
  proof (cases "shouldQuit r")
    case True
    then show ?thesis
      using Cons.prems by simp
  next
    case False
    then obtain r1 where s: "sys_step a r = Inr r1" and rest: "sys_run acts r1 = Inr r'"
      using Cons.prems(2) by (auto split: sum.splits)
    show ?thesis
      using Cons.IH[OF sys_inv_step[OF Cons.prems(1) s] rest] .
  qed
qed

text \<open>
  When the loop is about to return (\<open>shouldQuit\<close>), every helper it has spawned has
  finished: no helper is left to post on \<^verbatim>\<open>states\<close> after \<^verbatim>\<open>Run\<close> has closed it.
\<close>

lemma helpers_finished_when_Run_returns:
  "sys_inv r \<Longrightarrow> shouldQuit r \<Longrightarrow> list_all helper_finished (helpers r)"
proof -
  assume inv: "sys_inv r" and q: "shouldQuit r"
  have "startable r"
    using q by (auto simp: shouldQuit_def startable_def)
  then have "idle r"
    using inv sys_inv_startable_idle by blast
  then show ?thesis
    by (auto simp: idle_def list_all_iff wf_done_finished)
qed

lemma sys_inv_init: "state sv = Stopped \<or> state sv = Exited \<Longrightarrow> sys_inv (Run_init sv)"
  by (simp add: sys_inv_def Run_init_def)

lemma sys_inv_handle:
  "sys_inv r \<Longrightarrow> state (svc r) = Running \<or> state (svc r) = Stopping \<Longrightarrow> handle_ok (svc r)"
  by (cases "helpers r" rule: rev_cases)
     (auto simp: sys_inv_Nil sys_inv_snoc split: main_pc.splits)

lemmas sys_eval = sys_step_def loop_defs helper_step_def main_step_def timer_step_def post_def
  helper_init_def helper_panic_def exit_msg_def example_service_def example_child_def

text \<open>
  Claim C9 says that in every state reachable during a run of the loop the child handle
  is non-null if and only if the service is Running or Stopping. The loop never
  clears \<^verbatim>\<open>s.command\<close>, and the helper sets it before the launch. In this run of the
  example service \<^verbatim>\<open>start\<close> is accepted, the child is launched, the start window
  ends (the service is Running), \<^verbatim>\<open>stop\<close> is accepted, the child exits and the helper
  posts \<open>Exited\<close>: the service is Stopped and the handle is still set.
\<close>

theorem handle_kept_after_stop_counterexample:
  "sys_view (sys_run
     [Deliver \<lparr>Name = Start, Response = Some 1\<rparr>,
      HelperAct 0 example_child MainT,
      HelperAct 0 example_child TimerT, HelperAct 0 example_child TimerT,
      HelperAct 0 example_child TimerT, HelperAct 0 example_child TimerT,
      Deliver \<lparr>Name = Stop, Response = Some 2\<rparr>,
      HelperAct 0 example_child MainT, HelperAct 0 example_child MainT,
      HelperAct 0 example_child MainT]
     (Run_init example_service)) = Some (Stopped, True)"
  by (simp add: sys_eval sys_view_def)

text \<open>
  Claim C9 as amended: in every state reachable during a run of the control loop, the
  child handle is non-null if the service state is Running or Stopping.

  A run starts from a service in state Stopped (as \<^verbatim>\<open>NewService\<close> returns it) or
  Exited (as an earlier \<^verbatim>\<open>Run\<close> may have left it) and takes any actions of the caller,
  the helpers and the stop timers. In a state it reaches without a panic, Running or
  Stopping implies that \<^verbatim>\<open>s.command\<close> is set, and even that its \<^verbatim>\<open>Process\<close> is, so
  that \<^verbatim>\<open>s.Pid()\<close> returns a PID.
\<close>

theorem handle_present_while_Running_or_Stopping:
  assumes "state sv = Stopped \<or> state sv = Exited" and "sys_run acts (Run_init sv) = Inr r"
    and "state (svc r) = Running \<or> state (svc r) = Stopping"
  shows "command (svc r) \<noteq> None \<and> (\<exists>pid. Pid (svc r) = Inr pid)"
proof -
  have "sys_inv r"
    using sys_inv_run[OF sys_inv_init[OF assms(1)] assms(2)] .
  then have "handle_ok (svc r)"
    using assms(3) by (rule sys_inv_handle)
  then show ?thesis
    by (auto simp: handle_ok_def Pid_def split: option.splits)
qed

text \<open>The theorem at the example service, after a start that has reached Running.\<close>

lemma example_reaches_Running:
  "sys_run
     [Deliver \<lparr>Name = Start, Response = Some 1\<rparr>,
      HelperAct 0 example_child MainT,
      HelperAct 0 example_child TimerT, HelperAct 0 example_child TimerT,
      HelperAct 0 example_child TimerT]
     (Run_init example_service) =
   Inr \<lparr>svc = example_service
          \<lparr>command := Some \<lparr>Args = [''sleep'', ''10''], CStdout = None,
                             CStderr = None, Env = None, Dir = ''/'', Process = Some 42\<rparr>,
           state := Running\<rparr>,
        command_loc = None, retries = 0,
        outputs = [EventOut \<lparr>EState = Starting, EError = None\<rparr>,
                   EventOut \<lparr>EState = Running, EError = None\<rparr>,
                   ResponseOut 1 \<lparr>RName = Start, RError = None\<rparr>],
        helpers = [\<lparr>hmain = MWait, htimer = TSendCheckTrue, waitOver = None, checkOver = None,
                    chans_closed = False, exitErr = None,
                    posted = [\<lparr>PState = Running, PError = None\<rparr>]\<rparr>],
        timers = []\<rparr>"
  by (simp add: sys_eval)

theorem handle_present_while_Running_or_Stopping_witness:
  "(state example_service = Stopped \<or> state example_service = Exited) \<and>
   (\<exists>r. sys_run
          [Deliver \<lparr>Name = Start, Response = Some 1\<rparr>,
           HelperAct 0 example_child MainT,
           HelperAct 0 example_child TimerT, HelperAct 0 example_child TimerT,
           HelperAct 0 example_child TimerT]
          (Run_init example_service) = Inr r \<and>
        state (svc r) = Running \<and> command (svc r) \<noteq> None \<and> Pid (svc r) = Inr 42)"
proof -
  have a: "state example_service = Stopped \<or> state example_service = Exited"
    by (simp add: example_service_def)
  show ?thesis
    using a handle_present_while_Running_or_Stopping[OF a example_reaches_Running]
    unfolding example_reaches_Running
    by (simp add: Pid_def)
qed

subsection \<open>The system does not panic\<close>

text \<open>
  The runs of the theorems above exist: from a new service with a program to run, and
  with a host that never uses the PID 0, no action of the caller, of a helper or of a
  timer makes the loop or a goroutine panic. In particular \<^verbatim>\<open>s.Pid()\<close> and the
  \<^verbatim>\<open>kill\<close> case never dereference a nil handle, no helper sends on a closed channel,
  and every pending timer carries a PID other than 0.
\<close>

lemma pids_ok_cong:
  "timers r' = timers r \<Longrightarrow> command (svc r') = command (svc r) \<Longrightarrow> pids_ok r' = pids_ok r"
  by (simp add: pids_ok_def)

lemma start_svc_fields [simp]:
  "command (svc (start r)) = command (svc r)"
  "args (svc (start r)) = args (svc r)"
  by (simp_all add: start_effect)

lemma pids_ok_start [simp]: "pids_ok (start r) = pids_ok r"
  by (rule pids_ok_cong) simp_all

lemma pids_ok_sendEvent [simp]: "pids_ok (sendEvent st e r) = pids_ok r"
  by (rule pids_ok_cong) simp_all

lemma pids_ok_sendResponse [simp]: "pids_ok (sendResponse e r) = pids_ok r"
  by (rule pids_ok_cong) simp_all

lemma pids_ok_respond [simp]: "pids_ok (respond c e r) = pids_ok r"
  by (rule pids_ok_cong) simp_all

lemma pids_ok_fields [simp]:
  "pids_ok (r\<lparr>command_loc := c\<rparr>) = pids_ok r"
  "pids_ok (r\<lparr>retries := n\<rparr>) = pids_ok r"
  "pids_ok (r\<lparr>outputs := os\<rparr>) = pids_ok r"
  "pids_ok (r\<lparr>helpers := hs\<rparr>) = pids_ok r"
  by (simp_all add: pids_ok_def)

lemma stop_total:
  "state (svc r) = Running \<longrightarrow> handle_ok (svc r) \<Longrightarrow> \<exists>r'. stop r = Inr r'"
  by (auto simp: stop_def Let_def Pid_def handle_ok_def split: option.splits)

lemma stop_pids_ok: "pids_ok r \<Longrightarrow> stop r = Inr r' \<Longrightarrow> pids_ok r'"
  by (auto simp: stop_def Let_def Pid_def pids_ok_def split: if_splits option.splits sum.splits)

lemma stop_args: "stop r = Inr r' \<Longrightarrow> args (svc r') = args (svc r)"
  using stop_effect[of r r'] by (auto split: if_splits)

lemma sys_inv_stop_total: "sys_inv r \<Longrightarrow> \<exists>r'. stop r = Inr r'"
  using sys_inv_handle[of r] stop_total[of r] by blast

lemma safe_stop: "safe r \<Longrightarrow> \<exists>r'. stop r = Inr r' \<and> safe r'"
  using sys_inv_stop_total[of r] sys_inv_stop[of r] stop_pids_ok[of r] stop_args[of r]
  by (auto simp: safe_def)

lemma safe_start: "safe r \<Longrightarrow> safe (start r)"
  by (simp add: safe_def sys_inv_start)

lemma safe_cong:
  "svc r' = svc r \<Longrightarrow> helpers r' = helpers r \<Longrightarrow> timers r' = timers r \<Longrightarrow> safe r' = safe r"
  using sys_inv_cong[of r' r] pids_ok_cong[of r' r] by (simp add: safe_def)

lemma safe_dispatch: "safe r \<Longrightarrow> \<exists>r'. dispatch r = Inr r' \<and> safe r'"
proof -
  assume s: "safe r"
  have resp: "\<And>e. safe (sendResponse e r)"
    using s safe_cong[of "sendResponse _ r" r] by simp
  have nb: "state (svc r) \<noteq> Backoff"
    using s sys_inv_not_Backoff by (simp add: safe_def)
  show ?thesis
  proof (cases "command_loc r")
    case None
    then show ?thesis using s by (simp add: dispatch_def)
  next
    case (Some c)
    then show ?thesis
      using s nb resp safe_start[OF s] safe_stop[OF s]
      by (cases "state (svc r)") (auto simp: dispatch_def)
  qed
qed

lemma safe_on_command: "safe r \<Longrightarrow> \<exists>r'. on_command c r = Inr r' \<and> safe r'"
proof -
  assume s: "safe r"
  have a: "safe (r\<lparr>command_loc := Some c\<rparr>)"
    using s safe_cong[of "r\<lparr>command_loc := Some c\<rparr>" r] by simp
  have b: "\<And>c0 e. safe ((respond c0 e r)\<lparr>command_loc := Some c\<rparr>)"
    using s safe_cong[of "(respond _ _ r)\<lparr>command_loc := Some c\<rparr>" r] by simp
  have c: "\<And>e. safe (respond c e r)"
    using s safe_cong[of "respond c _ r" r] by simp
  show ?thesis
  proof (cases "command_loc r")
    case None
    then show ?thesis using safe_dispatch[OF a] by (simp add: on_command_def)
  next
    case (Some c0)
    then show ?thesis using safe_dispatch[OF b] c by (simp add: on_command_def)
  qed
qed

lemma safe_on_kill:
  assumes "safe r" and "pid \<noteq> 0"
  shows "\<exists>r'. on_kill pid r = Inr r' \<and> safe r'"
proof -
  have h: "state (svc r) = Running \<or> state (svc r) = Stopping \<Longrightarrow> handle_ok (svc r)"
    using assms(1) sys_inv_handle by (simp add: safe_def)
  have "\<exists>r'. on_kill pid r = Inr r'"
    using h assms(2)
    by (auto simp: on_kill_def Pid_def handle_ok_def split: option.splits)
  then obtain r' where k: "on_kill pid r = Inr r'" ..
  have "timers r' = timers r"
    using k by (auto simp: on_kill_def split: sum.splits option.splits if_splits)
  then have "safe r'"
    using assms(1) on_kill_effect[OF k] safe_cong[of r' r] by simp
  then show ?thesis using k by blast
qed

lemma static_simps [simp]:
  "static_ok (start r) = static_ok r"
  "static_ok (sendEvent st e r) = static_ok r"
  "static_ok (sendResponse e r) = static_ok r"
  "static_ok (respond c e r) = static_ok r"
  "static_ok (r\<lparr>command_loc := co\<rparr>) = static_ok r"
  "static_ok (r\<lparr>retries := n\<rparr>) = static_ok r"
  "static_ok (r\<lparr>helpers := hs\<rparr>) = static_ok r"
  by (simp_all add: static_ok_def)

lemma static_stop: "static_ok r \<Longrightarrow> stop r = Inr r' \<Longrightarrow> static_ok r'"
  using stop_pids_ok[of r r'] stop_args[of r r'] by (simp add: static_ok_def)

lemma static_on_state: "static_ok r \<Longrightarrow> on_state ps r = Inr r' \<Longrightarrow> static_ok r'"
proof (cases "PState ps")
  case Running
  assume "static_ok r" "on_state ps r = Inr r'"
  then show ?thesis
    using on_state_Running_cases[OF Running, of r r'] static_stop[of r r'] by auto
next
  case Exited
  assume "static_ok r" "on_state ps r = Inr r'"
  then show ?thesis
    using on_state_Exited_cases[OF Exited, of r r'] by auto
next
  case Backoff
  assume "static_ok r" "on_state ps r = Inr r'"
  then show ?thesis
    using on_state_Backoff_cases[OF Backoff, of r r'] by auto
qed (auto simp: on_state_def)

lemma static_dispatch: "static_ok r \<Longrightarrow> dispatch r = Inr r' \<Longrightarrow> static_ok r'"
proof (cases "command_loc r")
  case None
  assume "static_ok r" "dispatch r = Inr r'"
  then show ?thesis using None by (simp add: dispatch_def)
next
  case (Some c)
  assume s: "static_ok r" and d: "dispatch r = Inr r'"
  have e: "static_ok (r\<lparr>svc := (svc r)\<lparr>state := Exited\<rparr>\<rparr>)"
    using s by (simp add: static_ok_def pids_ok_def)
  show ?thesis
    using s d e Some static_stop[of r r']
    by (cases "state (svc r)") (auto simp: dispatch_def split: if_splits)
qed

lemma static_on_command: "static_ok r \<Longrightarrow> on_command c r = Inr r' \<Longrightarrow> static_ok r'"
proof (cases "command_loc r")
  case None
  assume "static_ok r" "on_command c r = Inr r'"
  then show ?thesis
    using None static_dispatch[of "r\<lparr>command_loc := Some c\<rparr>" r'] by (simp add: on_command_def)
next
  case (Some c0)
  assume "static_ok r" "on_command c r = Inr r'"
  then show ?thesis
    using Some
      static_dispatch[of "(respond c0 (Some ''service is shuttind down'') r)\<lparr>command_loc := Some c\<rparr>" r']
    by (auto simp: on_command_def split: if_splits)
qed

lemma static_on_kill: "static_ok r \<Longrightarrow> on_kill pid r = Inr r' \<Longrightarrow> static_ok r'"
  by (auto simp: on_kill_def static_ok_def pids_ok_def split: sum.splits option.splits if_splits)

lemma static_deliver: "static_ok r \<Longrightarrow> deliver pss r = Inr r' \<Longrightarrow> static_ok r'"
proof (induction pss arbitrary: r)
  case Nil
  then show ?case by simp
next
  case (Cons ps pss)
  then show ?case
    using static_on_state by (auto split: sum.splits)
qed

lemma static_launch_write:
  "static_ok r \<Longrightarrow> launchRes ch \<noteq> Inr 0 \<Longrightarrow> static_ok (r\<lparr>svc := launch_write ch (svc r)\<rparr>)"
  by (auto simp: static_ok_def pids_ok_def launch_write_def makeCommand_def
           split: sum.splits list.splits)

lemma static_step: "static_ok r \<Longrightarrow> host_ok a \<Longrightarrow> sys_step a r = Inr r' \<Longrightarrow> static_ok r'"
proof (cases a)
  case (Deliver c)
  assume "static_ok r" "sys_step a r = Inr r'"
  then show ?thesis using Deliver static_on_command[of r c r'] by (simp add: sys_step_def)
next
  case (TimerFire i)
  assume s: "static_ok r" and st: "sys_step a r = Inr r'"
  have "static_ok (r\<lparr>timers := take i (timers r) @ drop (Suc i) (timers r)\<rparr>)"
    using s by (auto simp: static_ok_def pids_ok_def list_all_iff dest: in_set_takeD in_set_dropD)
  then show ?thesis
    using s st TimerFire static_on_kill by (auto simp: sys_step_def split: if_splits)
next
  case (HelperAct i ch t)
  assume s: "static_ok r" and h: "host_ok a" and st: "sys_step a r = Inr r'"
  have l: "launchRes ch \<noteq> Inr 0"
    using h HelperAct by (simp add: host_ok_def)
  show ?thesis
  proof (cases "i < length (helpers r)")
    case False
    then show ?thesis using s st HelperAct by (simp add: sys_step_def)
  next
    case True
    let ?h = "helpers r ! i"
    let ?h' = "helper_step (svc r) ch t ?h"
    let ?sv = "if t = MainT \<and> hmain ?h = MStart then launch_write ch (svc r) else svc r"
    have "static_ok (r\<lparr>svc := ?sv\<rparr>)"
      using s static_launch_write[OF s l] by simp
    then have "static_ok (r\<lparr>svc := ?sv, helpers := (helpers r)[i := ?h']\<rparr>)"
      by simp
    moreover have "deliver (drop (length (posted ?h)) (posted ?h'))
                     (r\<lparr>svc := ?sv, helpers := (helpers r)[i := ?h']\<rparr>) = Inr r'"
      using st HelperAct True by (auto simp: sys_step_def Let_def split: option.splits)
    ultimately show ?thesis
      by (rule static_deliver)
  qed
qed

lemma on_state_final_total:
  "PState ps = Exited \<or> PState ps = Backoff \<Longrightarrow> \<exists>r'. on_state ps r = Inr r'"
  by (auto simp: on_state_def Let_def)

lemma on_state_Running_total:
  "PState ps = Running \<Longrightarrow> state (svc r) = Running \<longrightarrow> handle_ok (svc r) \<Longrightarrow> \<exists>r'. on_state ps r = Inr r'"
  using stop_total[of r] by (auto simp: on_state_def)

lemma sys_inv_helper_wf:
  "sys_inv r \<Longrightarrow> i < length (helpers r) \<Longrightarrow> helper_wf (helpers r ! i) \<and> hmain (helpers r ! i) \<noteq> MPanicked"
proof (cases "helpers r" rule: rev_cases)
  case Nil
  assume "i < length (helpers r)"
  then show ?thesis using Nil by simp
next
  case (snoc hs0 h)
  assume inv: "sys_inv r" and i: "i < length (helpers r)"
  then have "i < length hs0 \<or> i = length hs0"
    using snoc by auto
  then show ?thesis
    using inv snoc
    by (auto simp: sys_inv_snoc list_all_length nth_append split: main_pc.splits)
qed

lemma wf_no_timer_panic: "helper_wf h \<Longrightarrow> htimer h \<noteq> TPanicked"
  by (cases "hmain h")
     (auto simp: helper_wf_def timer_early_def timer_default_def timer_late_def)

lemma helper_step_no_panic:
  assumes "helper_wf h" and "hmain h \<noteq> MPanicked" and "args sv \<noteq> []"
  shows "helper_panic (helper_step sv ch t h) = None"
  using no_main_panic[OF assms(3,2), of ch t] wf_no_timer_panic[OF helper_wf_step[OF assms(1), of sv ch t]]
  by (simp add: helper_panic_def)

lemma sys_step_total:
  assumes s: "safe r" and h: "host_ok a"
  shows "\<exists>r'. sys_step a r = Inr r'"
proof (cases a)
  case (Deliver c)
  then show ?thesis using safe_on_command[OF s, of c] by (auto simp: sys_step_def)
next
  case (TimerFire i)
  show ?thesis
  proof (cases "i < length (timers r)")
    case False
    then show ?thesis using TimerFire by (simp add: sys_step_def)
  next
    case True
    let ?r = "r\<lparr>timers := take i (timers r) @ drop (Suc i) (timers r)\<rparr>"
    have nz: "timers r ! i \<noteq> 0"
      using s True by (simp add: safe_def pids_ok_def list_all_length)
    have "sys_inv ?r"
      using s sys_inv_cong[of ?r r] by (simp add: safe_def)
    then have "state (svc ?r) = Running \<or> state (svc ?r) = Stopping \<Longrightarrow> handle_ok (svc ?r)"
      by (rule sys_inv_handle)
    then have "\<exists>r'. on_kill (timers r ! i) ?r = Inr r'"
      using nz by (auto simp: on_kill_def Pid_def handle_ok_def split: option.splits)
    then show ?thesis using TimerFire True by (simp add: sys_step_def)
  qed
next
  case (HelperAct i ch t)
  show ?thesis
  proof (cases "i < length (helpers r)")
    case False
    then show ?thesis using HelperAct by (simp add: sys_step_def)
  next
    case True
    let ?h = "helpers r ! i"
    let ?h' = "helper_step (svc r) ch t ?h"
    let ?sv = "if t = MainT \<and> hmain ?h = MStart then launch_write ch (svc r) else svc r"
    let ?r1 = "r\<lparr>svc := ?sv, helpers := (helpers r)[i := ?h']\<rparr>"
    have inv: "sys_inv r" and ar: "args (svc r) \<noteq> []"
      using s by (simp_all add: safe_def)
    have wf: "helper_wf ?h" and nP: "hmain ?h \<noteq> MPanicked"
      using sys_inv_helper_wf[OF inv True] by simp_all
    have np: "helper_panic ?h' = None"
      using helper_step_no_panic[OF wf nP ar] .
    have "\<exists>r'. deliver (drop (length (posted ?h)) (posted ?h')) ?r1 = Inr r'"
    proof (cases t)
      case TimerT
      then have h': "?h' = timer_step ?h" and sv: "?sv = svc r"
        by (simp_all add: helper_step_def)
      have ok: "state (svc ?r1) = Running \<longrightarrow> handle_ok (svc ?r1)"
        using sys_inv_handle[OF inv] unfolding sv by simp
      from timer_step_cases[OF wf] show ?thesis
      proof
        assume "posted (timer_step ?h) = posted ?h \<and> hmain (timer_step ?h) = hmain ?h"
        then show ?thesis using h' by simp
      next
        assume "posted (timer_step ?h) = posted ?h @ [\<lparr>PState = Running, PError = None\<rparr>] \<and>
                 launched (hmain ?h) \<and> hmain (timer_step ?h) = hmain ?h"
        then have d: "drop (length (posted ?h)) (posted ?h') = [\<lparr>PState = Running, PError = None\<rparr>]"
          using h' by simp
        show ?thesis
          unfolding d deliver_one
          by (rule on_state_Running_total[OF _ ok]) simp
      qed
    next
      case MainT
      then have h': "?h' = main_step (svc r) ch ?h"
        by (simp add: helper_step_def)
      have nP': "hmain (main_step (svc r) ch ?h) \<noteq> MPanicked"
        using np h' by (auto simp: helper_panic_def split: if_splits)
      from main_step_cases[OF wf nP'] consider
          (quiet) "posted ?h' = posted ?h"
        | (last) ps where "posted ?h' = posted ?h @ [ps]" "PState ps = Exited \<or> PState ps = Backoff"
        unfolding h' by blast
      then show ?thesis
      proof cases
        case quiet
        then show ?thesis by simp
      next
        case last
        then have d: "drop (length (posted ?h)) (posted ?h') = [ps]"
          by simp
        show ?thesis
          unfolding d deliver_one using last(2) by (rule on_state_final_total)
      qed
    qed
    then show ?thesis
      using HelperAct True np by (simp add: sys_step_def Let_def)
  qed
qed

lemma safe_step:
  assumes "safe r" and "host_ok a"
  shows "\<exists>r'. sys_step a r = Inr r' \<and> safe r'"
proof -
  obtain r' where st: "sys_step a r = Inr r'"
    using sys_step_total[OF assms] ..
  have "static_ok r"
    using assms(1) by (simp add: safe_def static_ok_def)
  then have "static_ok r'"
    using assms(2) st by (rule static_step)
  moreover have "sys_inv r"
    using assms(1) by (simp add: safe_def)
  then have "sys_inv r'"
    using st by (rule sys_inv_step)
  ultimately show ?thesis
    using st by (auto simp: safe_def static_ok_def)
qed

lemma system_never_panics:
  assumes "safe r" and "list_all host_ok acts"
  shows "\<exists>r'. sys_run acts r = Inr r' \<and> safe r'"
  using assms
proof (induction acts arbitrary: r)
  case Nil
  then show ?case by simp
next
  case (Cons a acts)
  then obtain r1 where "sys_step a r = Inr r1" "safe r1"
    using safe_step[of r a] by auto
  then show ?case
    using Cons by (cases "shouldQuit r") auto
qed

lemma safe_init:
  "state sv = Stopped \<Longrightarrow> command sv = None \<Longrightarrow> args sv \<noteq> [] \<Longrightarrow> safe (Run_init sv)"
  by (simp add: safe_def sys_inv_init pids_ok_def) (simp add: Run_init_def)

subsection \<open>Commands without a reply sink\<close>

lemma Name_erase [simp]: "Name (erase_command P c) = Name c"
  by (simp add: erase_command_def split: option.splits)

lemma erase_proj [simp]:
  "svc (erase_state P r) = svc r"
  "retries (erase_state P r) = retries r"
  "helpers (erase_state P r) = helpers r"
  "timers (erase_state P r) = timers r"
  "command_loc (erase_state P r) = map_option (erase_command P) (command_loc r)"
  "outputs (erase_state P r) = filter (kept P) (outputs r)"
  by (simp_all add: erase_state_def)

lemma erase_upd [simp]:
  "erase_state P (r\<lparr>svc := sv\<rparr>) = (erase_state P r)\<lparr>svc := sv\<rparr>"
  "erase_state P (r\<lparr>retries := n\<rparr>) = (erase_state P r)\<lparr>retries := n\<rparr>"
  "erase_state P (r\<lparr>helpers := hs\<rparr>) = (erase_state P r)\<lparr>helpers := hs\<rparr>"
  "erase_state P (r\<lparr>timers := ts\<rparr>) = (erase_state P r)\<lparr>timers := ts\<rparr>"
  "erase_state P (r\<lparr>command_loc := co\<rparr>) =
     (erase_state P r)\<lparr>command_loc := map_option (erase_command P) co\<rparr>"
  "erase_state P (r\<lparr>outputs := os\<rparr>) = (erase_state P r)\<lparr>outputs := filter (kept P) os\<rparr>"
  by (simp_all add: erase_state_def)

lemma kept_simps [simp]:
  "kept P (EventOut ev)"
  "kept P (SignalOut pid sg)"
  "kept P (KillOut pid)"
  "kept P (ResponseOut ch m) = (\<not> P ch)"
  by (simp_all add: kept_def)

lemma erase_step_Inr [simp]: "erase_step P (Inr r) = Inr (erase_state P r)"
  by (simp add: erase_step_def)

lemma erase_step_Inl [simp]: "erase_step P (Inl p) = Inl p"
  by (simp add: erase_step_def)

text \<open>Each closure of the loop does the same with and without the selected sinks.\<close>

lemma erase_respond:
  "erase_state P (respond c e r) = respond (erase_command P c) e (erase_state P r)"
  by (auto simp: respond_def erase_command_def split: option.splits)

lemma erase_sendResponse:
  "erase_state P (sendResponse e r) = sendResponse e (erase_state P r)"
proof (cases "command_loc r")
  case None
  then show ?thesis
    by (simp add: sendResponse_def)
next
  case (Some c)
  then show ?thesis
    by (cases "Response c") (auto simp: sendResponse_def erase_command_def respond_def)
qed

lemma erase_sendEvent:
  "erase_state P (sendEvent st e r) = sendEvent st e (erase_state P r)"
  by (cases "command_loc r") (simp_all add: sendEvent_def Let_def erase_sendResponse)

lemma erase_invalidStateError [simp]:
  "invalidStateError st (erase_state P r) = invalidStateError st r"
  by (simp add: invalidStateError_def)

lemma erase_start: "erase_state P (start r) = start (erase_state P r)"
  by (simp add: start_def erase_sendResponse erase_sendEvent Let_def)

lemma outputs_sendEvent_erase:
  "outputs (sendEvent st e (erase_state P r)) = filter (kept P) (outputs (sendEvent st e r))"
  by (simp add: erase_sendEvent[symmetric])

lemma erase_stop: "erase_step P (stop r) = stop (erase_state P r)"
  by (simp add: stop_def erase_sendResponse erase_sendEvent Let_def outputs_sendEvent_erase
        split: sum.splits)

lemma erase_shouldShutdown [simp]: "shouldShutdown (erase_state P r) = shouldShutdown r"
  by (simp add: shouldShutdown_def split: option.splits)

lemma erase_shouldQuit [simp]: "shouldQuit (erase_state P r) = shouldQuit r"
  by (simp add: shouldQuit_def)

lemma erase_on_state: "erase_step P (on_state ps r) = on_state ps (erase_state P r)"
  by (cases "PState ps")
     (simp_all add: on_state_def erase_stop erase_start erase_sendEvent Let_def)

lemma erase_dispatch: "erase_step P (dispatch r) = dispatch (erase_state P r)"
proof (cases "command_loc r")
  case None
  then show ?thesis
    by (simp add: dispatch_def)
next
  case (Some c)
  then show ?thesis
    by (cases "state (svc r)")
       (simp_all add: dispatch_def erase_stop erase_start erase_sendResponse)
qed

lemma erase_on_command:
  "erase_step P (on_command c r) = on_command (erase_command P c) (erase_state P r)"
  by (cases "command_loc r") (simp_all add: on_command_def erase_dispatch erase_respond)

lemma erase_on_kill: "erase_step P (on_kill pid r) = on_kill pid (erase_state P r)"
  by (simp add: on_kill_def split: sum.splits option.splits)

lemma erase_step_step: "erase_step P (step i r) = step (erase_input P i) (erase_state P r)"
  by (cases i)
     (simp_all add: step_def erase_input_def erase_on_state erase_on_command erase_on_kill)

lemma erase_Run_exit: "erase_state P (Run_exit r) = Run_exit (erase_state P r)"
  by (simp add: Run_exit_def erase_respond split: option.splits)

text \<open>
  Claim C10: for every command whose reply sink is nil, the supervisor executes the
  command's effect on the service exactly as when a sink is present, emits no
  response for it, and the nil sink causes no error or crash in the loop.

  Take any inputs and any set \<open>P\<close> of sinks, and make those sinks nil in the commands.
  The loop then does what it does on the original inputs, except that the responses
  on the sinks of \<open>P\<close> are missing: it panics in the one run exactly when it panics in
  the other, returns in the one exactly when it returns in the other, and ends with
  the same service (state and child handle), retry counter, helpers, timers, events,
  signals and kills, the same name of the command in flight, and the same responses
  on every other sink.
\<close>

theorem nil_sink_changes_nothing_but_responses:
  "Run_loop (map (erase_input P) ins) (erase_state P r) = erase_result P (Run_loop ins r)"
proof (induction ins arbitrary: r)
  case Nil
  then show ?case
    by (simp add: erase_result_def erase_Run_exit)
next
  case (Cons i ins)
  have s: "step (erase_input P i) (erase_state P r) = erase_step P (step i r)"
    by (simp add: erase_step_step)
  show ?case
  proof (cases "step i r")
    case (Inl p)
    then show ?thesis
      by (simp add: s erase_result_def erase_Run_exit)
  next
    case (Inr r')
    then show ?thesis
      using Cons.IH[of r']
      by (simp add: s erase_Run_exit erase_result_def)
  qed
qed

text \<open>
  The theorem at the example service with every sink made nil: \<^verbatim>\<open>start\<close>, the launch,
  Running, \<^verbatim>\<open>stop\<close>, the child's exit and \<^verbatim>\<open>shutdown\<close>. The events and the stop
  signal are those of the run with sinks, no response is sent, and \<^verbatim>\<open>Run\<close> returns.
\<close>

lemma example_run_with_sinks:
  "Run_loop
     [CommandIn \<lparr>Name = Start, Response = Some 1\<rparr>,
      LaunchIn example_child,
      StateIn \<lparr>PState = Running, PError = None\<rparr>,
      CommandIn \<lparr>Name = Stop, Response = Some 2\<rparr>,
      StateIn \<lparr>PState = Exited, PError = Some ''process exited normally with success''\<rparr>,
      CommandIn \<lparr>Name = Shutdown, Response = Some 3\<rparr>]
     (Run_init example_service) =
   Inr (\<lparr>svc = example_service
           \<lparr>command := Some \<lparr>Args = [''sleep'', ''10''], CStdout = None,
                              CStderr = None, Env = None, Dir = ''/'', Process = Some 42\<rparr>,
            state := Stopped\<rparr>,
         command_loc = Some \<lparr>Name = Shutdown, Response = Some 3\<rparr>, retries = 0,
         outputs = [EventOut \<lparr>EState = Starting, EError = None\<rparr>,
                    EventOut \<lparr>EState = Running, EError = None\<rparr>,
                    ResponseOut 1 \<lparr>RName = Start, RError = None\<rparr>,
                    EventOut \<lparr>EState = Stopping, EError = None\<rparr>,
                    SignalOut 42 2,
                    EventOut \<lparr>EState = Stopped, EError = None\<rparr>,
                    ResponseOut 2 \<lparr>RName = Stop, RError = None\<rparr>,
                    ResponseOut 3 \<lparr>RName = Shutdown, RError = None\<rparr>],
         helpers = [helper_init], timers = [42]\<rparr>, True)"
  by (simp add: loop_defs example_service_def example_child_def)

theorem nil_sink_changes_nothing_but_responses_witness:
  "observed (Run_loop
     (map (erase_input (\<lambda>ch. True))
        [CommandIn \<lparr>Name = Start, Response = Some 1\<rparr>,
         LaunchIn example_child,
         StateIn \<lparr>PState = Running, PError = None\<rparr>,
         CommandIn \<lparr>Name = Stop, Response = Some 2\<rparr>,
         StateIn \<lparr>PState = Exited, PError = Some ''process exited normally with success''\<rparr>,
         CommandIn \<lparr>Name = Shutdown, Response = Some 3\<rparr>])
     (erase_state (\<lambda>ch. True) (Run_init example_service)))
   = Some (Stopped, Some \<lparr>Name = Shutdown, Response = None\<rparr>, 0,
       [EventOut \<lparr>EState = Starting, EError = None\<rparr>,
        EventOut \<lparr>EState = Running, EError = None\<rparr>,
        EventOut \<lparr>EState = Stopping, EError = None\<rparr>,
        SignalOut 42 2,
        EventOut \<lparr>EState = Stopped, EError = None\<rparr>],
       True)"
  unfolding nil_sink_changes_nothing_but_responses example_run_with_sinks
  by (simp add: erase_result_def erase_state_def erase_command_def observed_def example_service_def)

end
